theory Spec2Isabelle
  imports Main "HOL-Library.Char_ord" "HOL-Library.List_Lexorder" "HOL-Library.AList"
begin

section \<open>Python string operations used by the topology parser\<close>

text \<open>
  Python strings are modelled as \<^typ>\<open>string\<close>; a character is its code point below 256.
  Comparison of strings (\<^verbatim>\<open><\<close>, \<^verbatim>\<open>sorted\<close>) is Python's lexicographic order on
  code points, which is the order of \<^theory_text>\<open>List_Lexorder\<close> over \<^theory_text>\<open>Char_ord\<close>.
\<close>

text \<open>The characters \<^verbatim>\<open>str.strip()\<close> and \<^verbatim>\<open>str.split()\<close> treat as white space.\<close>

definition is_space :: "char \<Rightarrow> bool" where
  "is_space c = (let n = (of_char c :: nat) in
     (9 \<le> n \<and> n \<le> 13) \<or> (28 \<le> n \<and> n \<le> 32) \<or> n = 133 \<or> n = 160)"

text \<open>The class \<^verbatim>\<open>\d\<close> of the \<^verbatim>\<open>re\<close> module (decimal digits).\<close>

definition is_digit :: "char \<Rightarrow> bool" where
  "is_digit c = (let n = (of_char c :: nat) in 48 \<le> n \<and> n \<le> 57)"

text \<open>The class \<^verbatim>\<open>\w\<close> of the \<^verbatim>\<open>re\<close> module: alphanumeric characters and the underscore.\<close>

definition is_word_char :: "char \<Rightarrow> bool" where
  "is_word_char c = (let n = (of_char c :: nat) in
     (48 \<le> n \<and> n \<le> 57) \<or> (65 \<le> n \<and> n \<le> 90) \<or> n = 95 \<or> (97 \<le> n \<and> n \<le> 122)
     \<or> n = 170 \<or> n = 178 \<or> n = 179 \<or> n = 181 \<or> n = 185 \<or> n = 186
     \<or> (188 \<le> n \<and> n \<le> 190) \<or> (192 \<le> n \<and> n \<le> 214) \<or> (216 \<le> n \<and> n \<le> 246)
     \<or> (248 \<le> n \<and> n \<le> 255))"

text \<open>\<^verbatim>\<open>s.strip()\<close>\<close>

definition str_strip :: "string \<Rightarrow> string" where
  "str_strip s = rev (dropWhile is_space (rev (dropWhile is_space s)))"

text \<open>Splitting at every character that satisfies \<open>P\<close>, empty pieces kept.\<close>

fun split_where :: "(char \<Rightarrow> bool) \<Rightarrow> string \<Rightarrow> string list" where
  "split_where P [] = [[]]"
| "split_where P (c # cs) =
     (if P c then [] # split_where P cs
      else (case split_where P cs of
              [] \<Rightarrow> [[c]]
            | w # ws \<Rightarrow> (c # w) # ws))"

text \<open>\<^verbatim>\<open>s.split(sep)\<close> for a one-character separator.\<close>

definition str_split :: "char \<Rightarrow> string \<Rightarrow> string list" where
  "str_split sep s = split_where (\<lambda>c. c = sep) s"

text \<open>\<^verbatim>\<open>s.split()\<close>: runs of white space separate, no empty piece is returned.\<close>

definition str_split_ws :: "string \<Rightarrow> string list" where
  "str_split_ws s = filter (\<lambda>w. w \<noteq> []) (split_where is_space s)"

text \<open>\<^verbatim>\<open>s.startswith(p)\<close>\<close>

definition startswith :: "string \<Rightarrow> string \<Rightarrow> bool" where
  "startswith s p = (take (length p) s = p)"

text \<open>\<^verbatim>\<open>p in s\<close> for strings: \<open>p\<close> occurs as a contiguous piece of \<open>s\<close>.\<close>

fun str_contains :: "string \<Rightarrow> string \<Rightarrow> bool" where
  "str_contains [] p = (p = [])"
| "str_contains (c # cs) p = (startswith (c # cs) p \<or> str_contains cs p)"

text \<open>\<^verbatim>\<open>s.split(':', 1)\<close> on a string that contains the separator: the two pieces.\<close>

definition split_first :: "char \<Rightarrow> string \<Rightarrow> string \<times> string" where
  "split_first sep s = (takeWhile (\<lambda>c. c \<noteq> sep) s, tl (dropWhile (\<lambda>c. c \<noteq> sep) s))"

text \<open>
  \<^verbatim>\<open>int(ds)\<close> on a string of decimal digits, as a mathematical integer: a bound an
  interpreter may put on the number of digits is left out.
\<close>

definition digit_val :: "char \<Rightarrow> int" where
  "digit_val c = int (of_char c) - 48"

definition int_of_digits :: "string \<Rightarrow> int" where
  "int_of_digits ds = foldl (\<lambda>n c. 10 * n + digit_val c) 0 ds"

text \<open>\<^verbatim>\<open>str(n)\<close> for an integer, as the f-strings of the command builders print it.\<close>

fun str_nat :: "nat \<Rightarrow> string" where
  "str_nat n = (if n < 10 then [char_of (48 + n)]
                else str_nat (n div 10) @ [char_of (48 + n mod 10)])"

declare str_nat.simps [simp del]

definition str_int :: "int \<Rightarrow> string" where
  "str_int i = (if i < 0 then CHR ''-'' # str_nat (nat (- i)) else str_nat (nat i))"

text \<open>
  \<^verbatim>\<open>re.match(r'^(\w+)-eth(\d+)$', s)\<close>: the two groups when the pattern matches.
  No character of \<^verbatim>\<open>\w\<close> is a hyphen, so the first group is the longest prefix of word
  characters; the pattern is only applied to pieces of a white-space split, which hold no
  newline, so \<^verbatim>\<open>$\<close> is the end of the string.
\<close>

definition match_port :: "string \<Rightarrow> (string \<times> string) option" where
  "match_port s =
     (let w = takeWhile is_word_char s;
          r = dropWhile is_word_char s;
          d = drop 4 r
      in if w \<noteq> [] \<and> take 4 r = ''-eth'' \<and> d \<noteq> [] \<and> list_all is_digit d
         then Some (w, d) else None)"

section \<open>Topology discovery: \<^verbatim>\<open>TopologyGraph._parse_net_output\<close>\<close>

text \<open>The dictionaries the parser builds: a link, a switch entry, a host entry.\<close>

record link =
  source :: string
  target :: string
  source_port :: int
  target_port :: int

record switch_entry =
  sw_name :: string
  dpid :: string

record host_entry =
  host_name :: string
  ip :: string

record topology_info =
  switches :: "switch_entry list"
  hosts :: "host_entry list"
  links :: "link list"

text \<open>
  A link token after both regular expressions matched:
  local node, local port, remote node, remote port.
\<close>

type_synonym token = "string \<times> int \<times> string \<times> int"

text \<open>
  The body of the loop over \<^verbatim>\<open>parts[1:]\<close> up to the two matches; \<open>None\<close> is every
  \<^verbatim>\<open>continue\<close> and the failed \<^verbatim>\<open>if ':' in part and 'eth' in part\<close>.
\<close>

definition parse_part :: "string \<Rightarrow> token option" where
  "parse_part part =
     (if CHR '':'' \<in> set part \<and> str_contains part ''eth'' then
        (let (local_port, remote_info) = split_first CHR '':'' part in
         case match_port local_port of
           None \<Rightarrow> None
         | Some (local_node, lp) \<Rightarrow>
             (case match_port remote_info of
                None \<Rightarrow> None
              | Some (remote_node, rp) \<Rightarrow>
                  Some (local_node, int_of_digits lp, remote_node, int_of_digits rp)))
      else None)"

text \<open>The record appended to \<^verbatim>\<open>links\<close>: the smaller node name becomes the source.\<close>

definition make_link :: "token \<Rightarrow> link" where
  "make_link t =
     (case t of (local_node, local_port_num, remote_node, remote_port_num) \<Rightarrow>
        if local_node < remote_node
        then \<lparr>source = local_node, target = remote_node,
              source_port = local_port_num, target_port = remote_port_num\<rparr>
        else \<lparr>source = remote_node, target = local_node,
              source_port = remote_port_num, target_port = local_port_num\<rparr>)"

text \<open>
  Whether a line passes the three \<^verbatim>\<open>continue\<close> tests at the head of the loop body
  (empty or prompt line, fewer than two pieces, prompt as first piece).
\<close>

definition line_parts :: "string \<Rightarrow> string list option" where
  "line_parts line0 =
     (let line = str_strip line0 in
      if line = [] \<or> line = ''mininet>'' then None
      else let parts = str_split_ws line in
        if length parts < 2 then None
        else if hd parts = ''mininet>'' then None
        else Some parts)"

text \<open>The link tokens one line contributes, in order.\<close>

definition line_tokens :: "string \<Rightarrow> token list" where
  "line_tokens line0 =
     (case line_parts line0 of
        None \<Rightarrow> []
      | Some parts \<Rightarrow> List.map_filter parse_part (tl parts))"

text \<open>
  One iteration of \<^verbatim>\<open>for line in lines\<close> on the three accumulators
  \<^verbatim>\<open>switches\<close>, \<^verbatim>\<open>hosts\<close> (sets) and \<^verbatim>\<open>links\<close> (a list).
\<close>

definition parse_line ::
  "string \<Rightarrow> string set \<times> string set \<times> link list \<Rightarrow> string set \<times> string set \<times> link list" where
  "parse_line line0 acc =
     (case acc of (sws, hs, ls) \<Rightarrow>
        (case line_parts line0 of
           None \<Rightarrow> (sws, hs, ls)
         | Some parts \<Rightarrow>
             (let node_name = hd parts in
              (if startswith node_name ''s'' then insert node_name sws else sws,
               if startswith node_name ''s'' then hs
               else if startswith node_name ''h'' then insert node_name hs else hs,
               ls @ map make_link (line_tokens line0)))))"

text \<open>\<^verbatim>\<open>lines = net_output.strip().split('\n')\<close>\<close>

definition dump_lines :: "string \<Rightarrow> string list" where
  "dump_lines net_output = str_split CHR 0x0A (str_strip net_output)"

definition scan_lines :: "string \<Rightarrow> string set \<times> string set \<times> link list" where
  "scan_lines net_output = fold parse_line (dump_lines net_output) ({}, {}, [])"

text \<open>All link tokens of a dump, in the order in which the parser meets them.\<close>

definition dump_tokens :: "string \<Rightarrow> token list" where
  "dump_tokens net_output = concat (map line_tokens (dump_lines net_output))"

text \<open>
  The loop \<^verbatim>\<open>for link in links\<close> with \<^verbatim>\<open>seen_links\<close>: the first record of every
  \<^verbatim>\<open>(source, target)\<close> key is kept.
\<close>

fun unique_links :: "(string \<times> string) set \<Rightarrow> link list \<Rightarrow> link list" where
  "unique_links seen_links [] = []"
| "unique_links seen_links (l # ls) =
     (if (source l, target l) \<notin> seen_links
      then l # unique_links (insert (source l, target l) seen_links) ls
      else unique_links seen_links ls)"

definition make_switch :: "string \<Rightarrow> switch_entry" where
  "make_switch s = \<lparr>sw_name = s, dpid = filter (\<lambda>c. c \<noteq> CHR ''s'') s\<rparr>"

definition make_host :: "string \<Rightarrow> host_entry" where
  "make_host h = \<lparr>host_name = h, ip = ''10.0.0.'' @ tl h @ ''/24''\<rparr>"

definition parse_net_output :: "string \<Rightarrow> topology_info" where
  "parse_net_output net_output =
     (case scan_lines net_output of (sws, hs, ls) \<Rightarrow>
        \<lparr>switches = map make_switch (sorted_list_of_set sws),
         hosts = map make_host (sorted_list_of_set hs),
         links = unique_links {} ls\<rparr>)"

section \<open>The graph library: the operations of \<^verbatim>\<open>networkx.Graph\<close> the code calls\<close>

text \<open>
  An undirected \<^verbatim>\<open>networkx.Graph\<close> is two insertion-ordered dictionaries: \<^verbatim>\<open>_node\<close>
  from a node to its attribute dictionary and \<^verbatim>\<open>_adj\<close> from a node to the dictionary of
  its neighbours, each with the attribute dictionary of the edge. Dictionaries are
  association lists; \<^const>\<open>AList.update\<close> overwrites a present key in place and appends an
  absent one, as a Python dictionary does. An attribute dictionary is a record of optional
  fields, one per key the program ever reads or writes; \<open>None\<close> is an absent key.
\<close>

record node_data =
  node_type :: "string option"
  node_dpid :: "string option"
  node_ip :: "string option"

record edge_data =
  edge_source :: "string option"
  edge_source_port :: "int option"
  edge_target_port :: "int option"

record nx_graph =
  g_node :: "(string \<times> node_data) list"
  g_adj :: "(string \<times> (string \<times> edge_data) list) list"

definition empty_node :: node_data where
  "empty_node = \<lparr>node_type = None, node_dpid = None, node_ip = None\<rparr>"

definition empty_edge :: edge_data where
  "empty_edge = \<lparr>edge_source = None, edge_source_port = None, edge_target_port = None\<rparr>"

text \<open>\<^verbatim>\<open>nx.Graph()\<close> and the graph after \<^verbatim>\<open>graph.clear()\<close>\<close>

definition empty_graph :: nx_graph where
  "empty_graph = \<lparr>g_node = [], g_adj = []\<rparr>"

text \<open>\<^verbatim>\<open>n in graph\<close>, \<^verbatim>\<open>n in graph.nodes\<close>\<close>

definition has_node :: "nx_graph \<Rightarrow> string \<Rightarrow> bool" where
  "has_node g n = (map_of (g_node g) n \<noteq> None)"

text \<open>
  \<^verbatim>\<open>graph._adj[n]\<close>; the key is present for every node of a graph built by
  \<^verbatim>\<open>add_node\<close> and \<^verbatim>\<open>add_edge\<close>, an absent key reads as the empty dictionary here.
\<close>

definition adj_of :: "nx_graph \<Rightarrow> string \<Rightarrow> (string \<times> edge_data) list" where
  "adj_of g n = (case map_of (g_adj g) n of None \<Rightarrow> [] | Some d \<Rightarrow> d)"

text \<open>\<^verbatim>\<open>graph.neighbors(n)\<close>, in the order of the adjacency dictionary\<close>

definition neighbors :: "nx_graph \<Rightarrow> string \<Rightarrow> string list" where
  "neighbors g n = map fst (adj_of g n)"

text \<open>\<^verbatim>\<open>graph.has_edge(u, v)\<close>: \<^verbatim>\<open>v in self._adj[u]\<close>, \<open>False\<close> on a \<^verbatim>\<open>KeyError\<close>\<close>

definition has_edge :: "nx_graph \<Rightarrow> string \<Rightarrow> string \<Rightarrow> bool" where
  "has_edge g u v = (case map_of (g_adj g) u of
                       None \<Rightarrow> False
                     | Some d \<Rightarrow> map_of d v \<noteq> None)"

text \<open>\<^verbatim>\<open>graph[u][v]\<close> where the edge exists\<close>

definition get_edge_data :: "nx_graph \<Rightarrow> string \<Rightarrow> string \<Rightarrow> edge_data" where
  "get_edge_data g u v = (case map_of (adj_of g u) v of None \<Rightarrow> empty_edge | Some d \<Rightarrow> d)"

text \<open>\<^verbatim>\<open>graph.add_node(n, **attr)\<close>; \<open>attr\<close> is the update the keyword arguments make.\<close>

definition add_node :: "nx_graph \<Rightarrow> string \<Rightarrow> (node_data \<Rightarrow> node_data) \<Rightarrow> nx_graph" where
  "add_node g n attr =
     (case map_of (g_node g) n of
        None \<Rightarrow> \<lparr>g_node = AList.update n (attr empty_node) (g_node g),
                 g_adj = AList.update n [] (g_adj g)\<rparr>
      | Some d \<Rightarrow> \<lparr>g_node = AList.update n (attr d) (g_node g), g_adj = g_adj g\<rparr>)"

text \<open>The first lines of \<^verbatim>\<open>add_edge\<close>: an endpoint that is no node yet is added bare.\<close>

definition ensure_node :: "nx_graph \<Rightarrow> string \<Rightarrow> nx_graph" where
  "ensure_node g n =
     (if map_of (g_node g) n = None
      then \<lparr>g_node = AList.update n empty_node (g_node g),
            g_adj = AList.update n [] (g_adj g)\<rparr>
      else g)"

text \<open>\<^verbatim>\<open>self._adj[u][v] = datadict\<close>\<close>

definition set_adj ::
  "(string \<times> (string \<times> edge_data) list) list \<Rightarrow> string \<Rightarrow> string \<Rightarrow> edge_data
     \<Rightarrow> (string \<times> (string \<times> edge_data) list) list" where
  "set_adj adj u v d =
     AList.update u (AList.update v d (case map_of adj u of None \<Rightarrow> [] | Some a \<Rightarrow> a)) adj"

text \<open>
  \<^verbatim>\<open>graph.add_edge(u, v, **attr)\<close>: the edge's dictionary (a new one if the edge is new)
  is updated and stored under both directions.
\<close>

definition add_edge :: "nx_graph \<Rightarrow> string \<Rightarrow> string \<Rightarrow> (edge_data \<Rightarrow> edge_data) \<Rightarrow> nx_graph" where
  "add_edge g u v attr =
     (let g1 = ensure_node g u;
          g2 = ensure_node g1 v;
          datadict = attr (case map_of (adj_of g2 u) v of None \<Rightarrow> empty_edge | Some d \<Rightarrow> d)
      in \<lparr>g_node = g_node g2, g_adj = set_adj (set_adj (g_adj g2) u v datadict) v u datadict\<rparr>)"

subsection \<open>\<^verbatim>\<open>nx.shortest_path(G, source, target)\<close>\<close>

text \<open>
  The library call of \<^verbatim>\<open>find_path\<close>. With no weight it is
  \<^verbatim>\<open>bidirectional_shortest_path\<close>: a breadth-first search from the source and one from
  the target, level by level, the smaller fringe first, which stops at the first node
  \<open>w\<close> that both searches have reached. The search from the source keeps the dictionary
  \<^verbatim>\<open>pred\<close> (a reached node to the node it was reached from, the source to \<^verbatim>\<open>None\<close>),
  the search from the target the dictionary \<^verbatim>\<open>succ\<close>. The path is read off \<^verbatim>\<open>pred\<close>
  from \<open>w\<close> back to the source and off \<^verbatim>\<open>succ\<close> from \<open>w\<close> on to the target.
  The call raises \<^verbatim>\<open>NodeNotFound\<close> for an endpoint that is no node and
  \<^verbatim>\<open>NetworkXNoPath\<close> when a fringe runs empty; a dictionary read of an absent key is a
  \<^verbatim>\<open>KeyError\<close>. A loop that does not end is the value \<open>None\<close>.
\<close>

datatype nx_error = NodeNotFound | NetworkXNoPath | KeyError

type_synonym search_dict = "string \<rightharpoonup> string option"

text \<open>
  The inner loop \<^verbatim>\<open>for w in Gsucc[v]\<close> of one direction, on the dictionary \<open>mine\<close> of
  this direction, the dictionary \<open>other\<close> of the opposite one and the new fringe:
  \<^verbatim>\<open>if w not in pred: forward_fringe.append(w); pred[w] = v\<close>, then
  \<^verbatim>\<open>if w in succ: return pred, succ, w\<close>. The third component is the node of the
  \<^verbatim>\<open>return\<close>, if the loop came to it. The graph is undirected, so both directions read
  the same adjacency.
\<close>

fun scan_neighbors ::
  "string \<Rightarrow> string list \<Rightarrow> search_dict \<Rightarrow> search_dict \<Rightarrow> string list
     \<Rightarrow> search_dict \<times> string list \<times> string option" where
  "scan_neighbors v [] mine other fringe = (mine, fringe, None)"
| "scan_neighbors v (w # ws) mine other fringe =
     (let (mine', fringe') =
            (if mine w = None then (mine(w \<mapsto> Some v), fringe @ [w]) else (mine, fringe))
      in if other w \<noteq> None then (mine', fringe', Some w)
         else scan_neighbors v ws mine' other fringe')"

text \<open>The loop \<^verbatim>\<open>for v in this_level\<close> around it.\<close>

fun scan_level ::
  "nx_graph \<Rightarrow> string list \<Rightarrow> search_dict \<Rightarrow> search_dict \<Rightarrow> string list
     \<Rightarrow> search_dict \<times> string list \<times> string option" where
  "scan_level g [] mine other fringe = (mine, fringe, None)"
| "scan_level g (v # vs) mine other fringe =
     (case scan_neighbors v (neighbors g v) mine other fringe of
        (mine', fringe', Some w) \<Rightarrow> (mine', fringe', Some w)
      | (mine', fringe', None) \<Rightarrow> scan_level g vs mine' other fringe')"

text \<open>
  \<^verbatim>\<open>while forward_fringe and reverse_fringe\<close>: the forward level if
  \<^verbatim>\<open>len(forward_fringe) <= len(reverse_fringe)\<close>, else the reverse level;
  \<^verbatim>\<open>NetworkXNoPath\<close> after the loop.
\<close>

partial_function (option) search_loop ::
  "nx_graph \<Rightarrow> search_dict \<Rightarrow> search_dict \<Rightarrow> string list \<Rightarrow> string list
     \<Rightarrow> (nx_error + search_dict \<times> search_dict \<times> string) option" where
  "search_loop g pred succ forward_fringe reverse_fringe =
     (if forward_fringe = [] \<or> reverse_fringe = [] then Some (Inl NetworkXNoPath)
      else if length forward_fringe \<le> length reverse_fringe then
        (case scan_level g forward_fringe pred succ [] of
           (pred', fringe', Some w) \<Rightarrow> Some (Inr (pred', succ, w))
         | (pred', fringe', None) \<Rightarrow> search_loop g pred' succ fringe' reverse_fringe)
      else
        (case scan_level g reverse_fringe succ pred [] of
           (succ', fringe', Some w) \<Rightarrow> Some (Inr (pred, succ', w))
         | (succ', fringe', None) \<Rightarrow> search_loop g pred succ' forward_fringe fringe'))"

declare search_loop.simps [code]

text \<open>\<^verbatim>\<open>_bidirectional_pred_succ(G, source, target)\<close>\<close>

definition bidirectional_pred_succ ::
  "nx_graph \<Rightarrow> string \<Rightarrow> string \<Rightarrow> (nx_error + search_dict \<times> search_dict \<times> string) option" where
  "bidirectional_pred_succ g src dst =
     (if dst = src then Some (Inr ([dst \<mapsto> None], [src \<mapsto> None], src))
      else search_loop g [src \<mapsto> None] [dst \<mapsto> None] [src] [dst])"

text \<open>
  \<^verbatim>\<open>while w is not None: path.append(w); w = d[w]\<close>, for \<^verbatim>\<open>d = pred\<close> and for
  \<^verbatim>\<open>d = succ\<close>.
\<close>

partial_function (option) follow_dict ::
  "search_dict \<Rightarrow> string option \<Rightarrow> string list \<Rightarrow> (nx_error + string list) option" where
  "follow_dict d w path =
     (case w of
        None \<Rightarrow> Some (Inr path)
      | Some v \<Rightarrow>
          (case d v of
             None \<Rightarrow> Some (Inl KeyError)
           | Some w' \<Rightarrow> follow_dict d w' (path @ [v])))"

declare follow_dict.simps [code]

text \<open>
  \<^verbatim>\<open>bidirectional_shortest_path(G, source, target)\<close>: the path from \<open>w\<close> back to the
  src, reversed, then from \<^verbatim>\<open>succ[path[-1]]\<close> on to the dst.
\<close>

definition bidirectional_shortest_path ::
  "nx_graph \<Rightarrow> string \<Rightarrow> string \<Rightarrow> (nx_error + string list) option" where
  "bidirectional_shortest_path g src dst =
     (if \<not> has_node g src then Some (Inl NodeNotFound)
      else if \<not> has_node g dst then Some (Inl NodeNotFound)
      else (case bidirectional_pred_succ g src dst of
              None \<Rightarrow> None
            | Some (Inl e) \<Rightarrow> Some (Inl e)
            | Some (Inr (pred, succ, w)) \<Rightarrow>
                (case follow_dict pred (Some w) [] of
                   None \<Rightarrow> None
                 | Some (Inl e) \<Rightarrow> Some (Inl e)
                 | Some (Inr back) \<Rightarrow>
                     (let path = rev back in
                      case succ (last path) of
                        None \<Rightarrow> Some (Inl KeyError)
                      | Some w' \<Rightarrow> follow_dict succ w' path))))"

text \<open>\<^verbatim>\<open>nx.shortest_path(G, source, target)\<close> with the default arguments.\<close>

definition shortest_path :: "nx_graph \<Rightarrow> string \<Rightarrow> string \<Rightarrow> (nx_error + string list) option" where
  "shortest_path g src dst = bidirectional_shortest_path g src dst"

text \<open>
  Iterating \<^verbatim>\<open>graph.edges\<close>: every node in node order with its neighbours not yet
  passed as a node.
\<close>

fun edges_from :: "(string \<times> (string \<times> edge_data) list) list \<Rightarrow> string set \<Rightarrow> (string \<times> string) list" where
  "edges_from [] seen = []"
| "edges_from ((n, nbrs) # rest) seen =
     map (\<lambda>nbr. (n, nbr)) (filter (\<lambda>nbr. nbr \<notin> seen) (map fst nbrs))
     @ edges_from rest (insert n seen)"

definition graph_edges :: "nx_graph \<Rightarrow> (string \<times> string) list" where
  "graph_edges g = edges_from (g_adj g) {}"

section \<open>The topology model: class \<^verbatim>\<open>TopologyGraph\<close>\<close>

record TopologyGraph =
  graph :: nx_graph
  port_mapping :: "(string \<times> (string \<times> int) list) list"
  raw_links :: "link list"
  net_output :: string

definition init_topology :: TopologyGraph where
  "init_topology = \<lparr>graph = empty_graph, port_mapping = [], raw_links = [], net_output = []\<rparr>"

text \<open>
  The port \<^verbatim>\<open>_build_port_mapping\<close> enters for a node and one of its edges:
  \<^verbatim>\<open>edge_data.get('source_port', 1)\<close> if \<^verbatim>\<open>node == edge_data.get('source')\<close>, else
  \<^verbatim>\<open>edge_data.get('target_port', 1)\<close>.
\<close>

definition mapped_port :: "string \<Rightarrow> edge_data \<Rightarrow> int" where
  "mapped_port node ed =
     (if Some node = edge_source ed
      then (case edge_source_port ed of None \<Rightarrow> 1 | Some p \<Rightarrow> p)
      else (case edge_target_port ed of None \<Rightarrow> 1 | Some p \<Rightarrow> p))"

definition build_port_mapping :: "nx_graph \<Rightarrow> (string \<times> (string \<times> int) list) list" where
  "build_port_mapping g =
     fold (\<lambda>node pm.
             AList.update node
               (fold (\<lambda>neighbor inner.
                        AList.update neighbor (mapped_port node (get_edge_data g node neighbor)) inner)
                     (neighbors g node) [])
               pm)
          (map fst (g_node g)) []"

text \<open>The three loops of \<^verbatim>\<open>_build_complete_graph\<close> on the cleared graph.\<close>

definition build_graph :: "switch_entry list \<Rightarrow> host_entry list \<Rightarrow> link list \<Rightarrow> nx_graph" where
  "build_graph sws hs ls =
     (let g1 = fold (\<lambda>switch g.
                       add_node g (sw_name switch)
                         (\<lambda>d. d\<lparr>node_type := Some ''switch'', node_dpid := Some (dpid switch)\<rparr>))
                    sws empty_graph;
          g2 = fold (\<lambda>host g.
                       add_node g (host_name host)
                         (\<lambda>d. d\<lparr>node_type := Some ''host'', node_ip := Some (ip host)\<rparr>))
                    hs g1
      in fold (\<lambda>link g.
                 add_edge g (source link) (target link)
                   (\<lambda>d. d\<lparr>edge_source_port := Some (source_port link),
                           edge_target_port := Some (target_port link)\<rparr>))
              ls g2)"

definition build_complete_graph ::
  "TopologyGraph \<Rightarrow> switch_entry list \<Rightarrow> host_entry list \<Rightarrow> link list \<Rightarrow> TopologyGraph" where
  "build_complete_graph tg sws hs ls =
     (let g = build_graph sws hs ls
      in tg\<lparr>graph := g, port_mapping := build_port_mapping g\<rparr>)"

text \<open>
  \<^verbatim>\<open>extract_topology_from_mininet\<close>, one round of its polling loop, on the text the
  session channel returned for the \<^verbatim>\<open>net\<close> command: \<open>True\<close> is \<^verbatim>\<open>return True\<close>,
  \<open>False\<close> is the loop going on to the next round.
\<close>

definition extract_topology :: "TopologyGraph \<Rightarrow> string \<Rightarrow> bool \<times> TopologyGraph" where
  "extract_topology tg out =
     (if out = [] then (False, tg)
      else let tg1 = tg\<lparr>net_output := out\<rparr>;
               topology_info = parse_net_output out
           in if switches topology_info \<noteq> []
              then (True, build_complete_graph (tg1\<lparr>raw_links := links topology_info\<rparr>)
                            (switches topology_info) (hosts topology_info) (links topology_info))
              else (False, tg1))"

text \<open>The node entries of \<^verbatim>\<open>get_topology_data\<close>.\<close>

record gui_node =
  gn_id :: string
  gn_type :: string
  gn_ip :: string

record gui_edge =
  ge_source :: string
  ge_target :: string
  ge_source_port :: int
  ge_target_port :: int

definition topology_nodes :: "TopologyGraph \<Rightarrow> gui_node list" where
  "topology_nodes tg =
     map (\<lambda>(node, node_data).
            \<lparr>gn_id = node,
             gn_type = (case node_type node_data of None \<Rightarrow> ''unknown'' | Some t \<Rightarrow> t),
             gn_ip = (case node_ip node_data of None \<Rightarrow> [] | Some a \<Rightarrow> a)\<rparr>)
         (g_node (graph tg))"

definition topology_edges :: "TopologyGraph \<Rightarrow> gui_edge list" where
  "topology_edges tg =
     map (\<lambda>(u, v).
            let ed = get_edge_data (graph tg) u v
            in \<lparr>ge_source = u, ge_target = v,
                ge_source_port = (case edge_source_port ed of None \<Rightarrow> 1 | Some p \<Rightarrow> p),
                ge_target_port = (case edge_target_port ed of None \<Rightarrow> 1 | Some p \<Rightarrow> p)\<rparr>)
         (graph_edges (graph tg))"

definition get_topology_data ::
  "TopologyGraph \<Rightarrow> gui_node list \<times> gui_edge list \<times> (string \<times> (string \<times> int) list) list" where
  "get_topology_data tg = (topology_nodes tg, topology_edges tg, port_mapping tg)"

text \<open>
  \<^verbatim>\<open>find_path\<close>: both \<^verbatim>\<open>except\<close> clauses return the empty list, the inner one for
  \<^verbatim>\<open>NetworkXNoPath\<close> and the outer one for every other exception. \<open>None\<close> is a library
  call that does not return.
\<close>

definition find_path :: "TopologyGraph \<Rightarrow> string \<Rightarrow> string \<Rightarrow> string \<Rightarrow> string list option" where
  "find_path tg src dst algorithm =
     (if \<not> has_node (graph tg) src \<or> \<not> has_node (graph tg) dst then Some []
      else if algorithm = ''dijkstra'' then
        (case shortest_path (graph tg) src dst of
           None \<Rightarrow> None
         | Some (Inr path) \<Rightarrow> Some path
         | Some (Inl NetworkXNoPath) \<Rightarrow> Some []
         | Some (Inl NodeNotFound) \<Rightarrow> Some []
         | Some (Inl KeyError) \<Rightarrow> Some [])
      else Some [])"

text \<open>
  The loop of \<^verbatim>\<open>get_port_pair_from_raw_links\<close>: the first record that joins the two
  nodes in either orientation answers; \<open>(None, None)\<close> when the loop runs out.
\<close>

fun find_raw_link :: "link list \<Rightarrow> string \<Rightarrow> string \<Rightarrow> int option \<times> int option" where
  "find_raw_link [] node1 node2 = (None, None)"
| "find_raw_link (l # ls) node1 node2 =
     (if source l = node1 \<and> target l = node2 then (Some (source_port l), Some (target_port l))
      else if source l = node2 \<and> target l = node1 then (Some (target_port l), Some (source_port l))
      else find_raw_link ls node1 node2)"

definition get_port_pair_from_raw_links :: "TopologyGraph \<Rightarrow> string \<Rightarrow> string \<Rightarrow> int option \<times> int option" where
  "get_port_pair_from_raw_links tg node1 node2 =
     (if raw_links tg = [] then (None, None)
      else find_raw_link (raw_links tg) node1 node2)"

section \<open>Flow synthesis: class \<^verbatim>\<open>PathToFlow\<close>\<close>

record flow_rule =
  switch :: string
  flow_id :: string
  in_port :: "int option"
  out_port :: "int option"
  priority :: int
  path :: "string list"
  direction :: string

record PathToFlow =
  topology_graph :: TopologyGraph
  active_flows :: "string \<rightharpoonup> flow_rule list"

definition init_path_to_flow :: "TopologyGraph \<Rightarrow> PathToFlow" where
  "init_path_to_flow tg = \<lparr>topology_graph = tg, active_flows = Map.empty\<rparr>"

text \<open>
  \<^verbatim>\<open>_get_port_pair\<close>: the raw link records first; then the graph, where
  \<^verbatim>\<open>has_edge(node1, node2)\<close> is tried before \<^verbatim>\<open>has_edge(node2, node1)\<close>.
\<close>

definition get_port_pair :: "PathToFlow \<Rightarrow> string \<Rightarrow> string \<Rightarrow> int option \<times> int option" where
  "get_port_pair ptf node1 node2 =
     (let tg = topology_graph ptf;
          raw_ports = get_port_pair_from_raw_links tg node1 node2
      in if fst raw_ports \<noteq> None \<and> snd raw_ports \<noteq> None then raw_ports
         else if has_edge (graph tg) node1 node2 then
           (let ed = get_edge_data (graph tg) node1 node2
            in (Some (case edge_source_port ed of None \<Rightarrow> 1 | Some p \<Rightarrow> p),
                Some (case edge_target_port ed of None \<Rightarrow> 1 | Some p \<Rightarrow> p)))
         else if has_edge (graph tg) node2 node1 then
           (let ed = get_edge_data (graph tg) node2 node1
            in (Some (case edge_target_port ed of None \<Rightarrow> 1 | Some p \<Rightarrow> p),
                Some (case edge_source_port ed of None \<Rightarrow> 1 | Some p \<Rightarrow> p)))
         else (None, None))"

text \<open>
  The test \<^verbatim>\<open>h1_to_s1 is None\<close> of \<^verbatim>\<open>create_flow_rules\<close>. Its argument is what
  \<^verbatim>\<open>_get_port_pair\<close> returned, which is a tuple on every path of that method
  (\<^verbatim>\<open>return None, None\<close> builds the tuple \<^verbatim>\<open>(None, None)\<close>); a tuple is not the object
  \<^verbatim>\<open>None\<close>.
\<close>

definition is_None :: "int option \<times> int option \<Rightarrow> bool" where
  "is_None t = False"

text \<open>
  One round of \<^verbatim>\<open>for i in range(1, len(path) - 1)\<close> on \<^verbatim>\<open>switch_port_map\<close>, a
  dictionary from a switch to its \<^verbatim>\<open>in_port\<close> and \<^verbatim>\<open>out_port\<close>.
\<close>

definition switch_step ::
  "PathToFlow \<Rightarrow> string list \<Rightarrow> nat \<Rightarrow> (string \<times> int option \<times> int option) list
     \<Rightarrow> (string \<times> int option \<times> int option) list" where
  "switch_step ptf pth i switch_port_map =
     (let sw = pth ! i in
      if \<not> startswith sw ''s'' then switch_port_map
      else let prev_node = pth ! (i - 1);
               next_node = pth ! (i + 1);
               h1_to_s1 = get_port_pair ptf prev_node sw;
               s1_to_h2 = get_port_pair ptf sw next_node
           in if is_None h1_to_s1 \<or> is_None s1_to_h2 then switch_port_map
              else AList.update sw (snd h1_to_s1, fst s1_to_h2) switch_port_map)"

text \<open>The two rules the second loop makes of one entry of \<^verbatim>\<open>switch_port_map\<close>.\<close>

definition rule_pair ::
  "string \<Rightarrow> int \<Rightarrow> string list \<Rightarrow> string \<times> int option \<times> int option \<Rightarrow> flow_rule list" where
  "rule_pair fid prio pth entry =
     (case entry of (sw, inp, outp) \<Rightarrow>
        [\<lparr>switch = sw, flow_id = fid @ ''_forward'', in_port = inp, out_port = outp,
          priority = prio, path = pth, direction = ''forward''\<rparr>,
         \<lparr>switch = sw, flow_id = fid @ ''_reverse'', in_port = outp, out_port = inp,
          priority = prio, path = rev pth, direction = ''reverse''\<rparr>])"

definition create_flow_rules ::
  "PathToFlow \<Rightarrow> string list \<Rightarrow> string option \<Rightarrow> int \<Rightarrow> flow_rule list \<times> PathToFlow" where
  "create_flow_rules ptf pth fid_opt prio =
     (if pth = [] \<or> length pth < 2 then ([], ptf)
      else let fid = (case fid_opt of
                        None \<Rightarrow> ''flow_'' @ hd pth @ ''_'' @ last pth
                      | Some f \<Rightarrow> f);
               switch_port_map = fold (switch_step ptf pth) [1..<length pth - 1] [];
               flow_rules = concat (map (rule_pair fid prio pth) switch_port_map)
           in (flow_rules, ptf\<lparr>active_flows := (active_flows ptf)(fid \<mapsto> flow_rules)\<rparr>))"

text \<open>\<^verbatim>\<open>{in_port}\<close> inside an f-string: an integer in decimal, or the word \<^verbatim>\<open>None\<close>.\<close>

definition str_port :: "int option \<Rightarrow> string" where
  "str_port p = (case p of None \<Rightarrow> ''None'' | Some i \<Rightarrow> str_int i)"

definition delete_command :: "flow_rule \<Rightarrow> string" where
  "delete_command rule =
     ''sudo ovs-ofctl del-flows '' @ switch rule @ '' in_port='' @ str_port (in_port rule)"

text \<open>
  \<^verbatim>\<open>delete_flow_rules\<close>: the empty list for an unknown flow id; else one command per
  stored rule, and then \<^verbatim>\<open>del self.active_flows[flow_id]\<close>.
\<close>

definition delete_flow_rules :: "PathToFlow \<Rightarrow> string \<Rightarrow> string list \<times> PathToFlow" where
  "delete_flow_rules ptf fid =
     (case active_flows ptf fid of
        None \<Rightarrow> ([], ptf)
      | Some flow_rules \<Rightarrow>
          (map delete_command flow_rules,
           ptf\<lparr>active_flows := (active_flows ptf)(fid := None)\<rparr>))"

text \<open>\<^verbatim>\<open>validate_path\<close>: the four checks in order, each with its message.\<close>

definition validate_path :: "PathToFlow \<Rightarrow> string list \<Rightarrow> bool \<times> string" where
  "validate_path ptf pth =
     (let g = graph (topology_graph ptf) in
      if length pth < 2 then (False, ''Path must have at least 2 nodes'')
      else (case find (\<lambda>node. \<not> has_node g node) pth of
              Some node \<Rightarrow> (False, ''Node '' @ node @ '' not found in topology'')
            | None \<Rightarrow>
               (case find (\<lambda>(src, dst). \<not> has_edge g src dst) (zip pth (tl pth)) of
                  Some (src, dst) \<Rightarrow> (False, ''No link between '' @ src @ '' and '' @ dst)
                | None \<Rightarrow>
                    if card (set pth) \<noteq> length pth then (False, ''Path contains loops'')
                    else (True, ''Valid path''))))"

text \<open>\<^verbatim>\<open>calculate_path\<close> hands over to \<^verbatim>\<open>find_path\<close>.\<close>

definition calculate_path :: "PathToFlow \<Rightarrow> string \<Rightarrow> string \<Rightarrow> string \<Rightarrow> string list option" where
  "calculate_path ptf src dst algorithm = find_path (topology_graph ptf) src dst algorithm"

section \<open>Notions the properties are stated with\<close>

text \<open>
  The positions of the interior nodes of a path whose names carry the switch prefix:
  the rounds of the first loop of \<^verbatim>\<open>create_flow_rules\<close> that do not \<^verbatim>\<open>continue\<close> at once.
\<close>

definition interior_switches :: "string list \<Rightarrow> nat list" where
  "interior_switches pth = filter (\<lambda>i. startswith (pth ! i) ''s'') [1..<length pth - 1]"

text \<open>A link record joins two nodes, in one orientation or the other.\<close>

definition joins :: "link \<Rightarrow> string \<Rightarrow> string \<Rightarrow> bool" where
  "joins l a b = (source l = a \<and> target l = b \<or> source l = b \<and> target l = a)"

text \<open>The unordered node pair a link record, or a link token, is about.\<close>

definition link_pair :: "link \<Rightarrow> string set" where
  "link_pair l = {source l, target l}"

definition token_pair :: "token \<Rightarrow> string set" where
  "token_pair t = (case t of (local_node, lp, remote_node, rp) \<Rightarrow> {local_node, remote_node})"

text \<open>
  A record has the two nodes of a token, each with the port the token gives for it, in
  the token's order or exchanged.
\<close>

definition ports_carried :: "token \<Rightarrow> link \<Rightarrow> bool" where
  "ports_carried t l =
     (case t of (local_node, lp, remote_node, rp) \<Rightarrow>
        source l = local_node \<and> source_port l = lp \<and> target l = remote_node \<and> target_port l = rp
        \<or> source l = remote_node \<and> source_port l = rp \<and> target l = local_node \<and> target_port l = lp)"


text \<open>Every two consecutive nodes of a path are joined by an edge of the graph.\<close>

fun is_walk :: "nx_graph \<Rightarrow> string list \<Rightarrow> bool" where
  "is_walk g [] = True"
| "is_walk g [x] = True"
| "is_walk g (x # y # r) = (has_edge g x y \<and> is_walk g (y # r))"

text \<open>
  The adjacency of a graph is well formed: an edge is stored under both its directions,
  and every neighbour is a node.
\<close>

definition wf_graph :: "nx_graph \<Rightarrow> bool" where
  "wf_graph g = (\<forall>a b. has_edge g a b \<longrightarrow> has_edge g b a \<and> has_node g b)"

text \<open>All names that occur as a neighbour in the adjacency of a graph.\<close>

definition graph_names :: "nx_graph \<Rightarrow> string set" where
  "graph_names g = (\<Union>(n, d) \<in> set (g_adj g). fst ` set d)"

text \<open>
  A list of nodes is the chain a search dictionary holds from its first node: every node
  is mapped to the next, the last one to \<^verbatim>\<open>None\<close>.
\<close>

fun is_chain :: "search_dict \<Rightarrow> string list \<Rightarrow> bool" where
  "is_chain d [] = False"
| "is_chain d [w] = (d w = Some None)"
| "is_chain d (w # v # p) = (d w = Some (Some v) \<and> is_chain d (v # p))"

text \<open>
  A search dictionary is a tree of the graph with root \<open>r\<close>: from every key a chain
  without repetition leads to \<open>r\<close>, and read from \<open>r\<close> it runs along edges.
\<close>

definition search_tree :: "nx_graph \<Rightarrow> search_dict \<Rightarrow> string \<Rightarrow> bool" where
  "search_tree g d r =
     (\<forall>u\<in>dom d. \<exists>p. hd p = u \<and> is_chain d p \<and> last p = r \<and> distinct p \<and> is_walk g (rev p))"

text \<open>
  What one pass over a level leaves, started on the dictionary \<open>mine\<close> of its direction
  with root \<open>r\<close>, the dictionary \<open>other\<close> and a fringe: the dictionary is a tree that has
  grown by names of the graph, the fringe holds keys of it, the new ones among them newly
  reached, and the two dictionaries share no key, or just the node the pass returned at.
\<close>

definition scan_ok ::
  "nx_graph \<Rightarrow> string \<Rightarrow> search_dict \<Rightarrow> search_dict \<Rightarrow> string list
     \<Rightarrow> search_dict \<times> string list \<times> string option \<Rightarrow> bool" where
  "scan_ok g r mine other fringe res =
     (case res of (mine', fringe', found) \<Rightarrow>
        search_tree g mine' r \<and> set fringe' \<subseteq> dom mine' \<and> dom mine \<subseteq> dom mine'
        \<and> dom mine' \<subseteq> dom mine \<union> graph_names g
        \<and> set fringe' \<subseteq> set fringe \<union> (dom mine' - dom mine)
        \<and> (case found of
              None \<Rightarrow> dom mine' \<inter> dom other = {}
            | Some w \<Rightarrow> dom mine' \<inter> dom other = {w}))"

section \<open>Sample dumps\<close>

text \<open>
  The answer of the \<^verbatim>\<open>net\<close> command for one switch with two hosts: every line is a
  node name followed by that node's interfaces.
\<close>

definition net_dump :: string where
  "net_dump = ''h1 h1-eth0:s1-eth1'' @ [CHR 0x0A] @ ''h2 h2-eth0:s1-eth2'' @ [CHR 0x0A]
              @ ''s1 lo:  s1-eth1:h1-eth0 s1-eth2:h2-eth0''"

definition net_topology :: TopologyGraph where
  "net_topology = snd (extract_topology init_topology net_dump)"

text \<open>
  A ring of four switches with a host at \<^verbatim>\<open>s1\<close> and one at \<^verbatim>\<open>s2\<close>: two shortest
  paths join the hosts.
\<close>

definition ring_dump :: string where
  "ring_dump = ''h1 h1-eth0:s1-eth1'' @ [CHR 0x0A] @ ''h2 h2-eth0:s2-eth1'' @ [CHR 0x0A]
     @ ''s1 lo:  s1-eth1:h1-eth0 s1-eth2:s3-eth1 s1-eth3:s4-eth1'' @ [CHR 0x0A]
     @ ''s2 lo:  s2-eth1:h2-eth0 s2-eth2:s4-eth2 s2-eth3:s3-eth2'' @ [CHR 0x0A]
     @ ''s3 lo:  s3-eth1:s1-eth2 s3-eth2:s2-eth3'' @ [CHR 0x0A]
     @ ''s4 lo:  s4-eth1:s1-eth3 s4-eth2:s2-eth2''"

text \<open>Two lines that are a single link token each, with no node name in front.\<close>

definition token_dump :: string where
  "token_dump = ''s1-eth1:h1-eth0'' @ [CHR 0x0A] @ ''s1-eth2:h2-eth0''"

text \<open>A switch whose ports 1 and 2 are wired to each other.\<close>

definition loop_dump :: string where
  "loop_dump = ''s1 lo:  s1-eth1:s1-eth2 s1-eth2:s1-eth1''"


section \<open>The sample topology, evaluated\<close>

lemma parse_net_dump:
  "parse_net_output net_dump =
     \<lparr>switches = [\<lparr>sw_name = ''s1'', dpid = ''1''\<rparr>],
      hosts = [\<lparr>host_name = ''h1'', ip = ''10.0.0.1/24''\<rparr>,
               \<lparr>host_name = ''h2'', ip = ''10.0.0.2/24''\<rparr>],
      links = [\<lparr>source = ''h1'', target = ''s1'', source_port = 0, target_port = 1\<rparr>,
               \<lparr>source = ''h2'', target = ''s1'', source_port = 0, target_port = 2\<rparr>]\<rparr>"
  by code_simp

lemma graph_fallback_ignores_query_order:
  "get_port_pair (init_path_to_flow (net_topology\<lparr>raw_links := []\<rparr>)) ''h1'' ''s1'' = (Some 0, Some 1)
   \<and> get_port_pair (init_path_to_flow (net_topology\<lparr>raw_links := []\<rparr>)) ''s1'' ''h1'' = (Some 0, Some 1)"
  by code_simp

section \<open>The concrete scenario\<close>

text \<open>
  C1, as amended: parsing the three-line dump \<^verbatim>\<open>h1 h1-eth0:s1-eth1\<close>,
  \<^verbatim>\<open>h2 h2-eth0:s1-eth2\<close>, \<^verbatim>\<open>s1 lo:  s1-eth1:h1-eth0 s1-eth2:h2-eth0\<close> (every line a node
  name followed by its link tokens) gives a model with switch \<^verbatim>\<open>s1\<close>, hosts \<^verbatim>\<open>h1\<close> and
  \<^verbatim>\<open>h2\<close>, an edge s1-h1 with port pair (1, 0) and an edge s1-h2 with port pair (2, 0);
  on that model \<^verbatim>\<open>find_path(h1, h2)\<close> is \<^verbatim>\<open>[h1, s1, h2]\<close>, and
  \<^verbatim>\<open>create_flow_rules([h1, s1, h2])\<close> gives, for the one switch \<^verbatim>\<open>s1\<close>, a forward rule
  with in_port 1 and out_port 2 and a reverse rule with in_port 2 and out_port 1.
\<close>

theorem concrete_scenario:
  "fst (extract_topology init_topology net_dump)
   \<and> topology_nodes net_topology =
       [\<lparr>gn_id = ''s1'', gn_type = ''switch'', gn_ip = []\<rparr>,
        \<lparr>gn_id = ''h1'', gn_type = ''host'', gn_ip = ''10.0.0.1/24''\<rparr>,
        \<lparr>gn_id = ''h2'', gn_type = ''host'', gn_ip = ''10.0.0.2/24''\<rparr>]
   \<and> graph_edges (graph net_topology) = [(''s1'', ''h1''), (''s1'', ''h2'')]
   \<and> get_port_pair (init_path_to_flow net_topology) ''s1'' ''h1'' = (Some 1, Some 0)
   \<and> get_port_pair (init_path_to_flow net_topology) ''s1'' ''h2'' = (Some 2, Some 0)
   \<and> find_path net_topology ''h1'' ''h2'' ''dijkstra'' = Some [''h1'', ''s1'', ''h2'']
   \<and> fst (create_flow_rules (init_path_to_flow net_topology) [''h1'', ''s1'', ''h2''] None 1000) =
       [\<lparr>switch = ''s1'', flow_id = ''flow_h1_h2_forward'', in_port = Some 1, out_port = Some 2,
         priority = 1000, path = [''h1'', ''s1'', ''h2''], direction = ''forward''\<rparr>,
        \<lparr>switch = ''s1'', flow_id = ''flow_h1_h2_reverse'', in_port = Some 2, out_port = Some 1,
         priority = 1000, path = [''h2'', ''s1'', ''h1''], direction = ''reverse''\<rparr>]"
  by code_simp

theorem concrete_scenario_witness:
  "has_node (graph net_topology) ''h1'' \<and> has_node (graph net_topology) ''h2''
   \<and> find_path net_topology ''h1'' ''h2'' ''dijkstra'' = Some [''h1'', ''s1'', ''h2'']"
proof -
  have "has_node (graph net_topology) ''h1''" and "has_node (graph net_topology) ''h2''"
    by code_simp+
  then show ?thesis using concrete_scenario by simp
qed

text \<open>
  On the dump of the claim itself, two lines that are one link token each, every line has
  fewer than two pieces and is passed over: nothing is parsed, the round fails, the graph
  stays empty and no path is found.
\<close>

theorem concrete_scenario_token_lines:
  "parse_net_output token_dump = \<lparr>switches = [], hosts = [], links = []\<rparr>
   \<and> \<not> fst (extract_topology init_topology token_dump)
   \<and> topology_nodes (snd (extract_topology init_topology token_dump)) = []
   \<and> find_path (snd (extract_topology init_topology token_dump)) ''h1'' ''h2'' ''dijkstra''
       = Some []"
  by code_simp

section \<open>A failed port lookup\<close>

text \<open>
  C3 says that a switch whose ingress or egress lookup fails gets no rule. On the sample
  topology and the path \<^verbatim>\<open>[h1, s1, h3]\<close> the egress lookup for \<^verbatim>\<open>s1\<close> fails, since no
  link joins \<^verbatim>\<open>s1\<close> and \<^verbatim>\<open>h3\<close>; the test \<^verbatim>\<open>is None\<close> does not see the pair
  \<^verbatim>\<open>(None, None)\<close>, and both rules for \<^verbatim>\<open>s1\<close> are made and registered, with the port
  \<^verbatim>\<open>None\<close>.
\<close>

theorem failed_lookup_still_emits_rules:
  "get_port_pair (init_path_to_flow net_topology) ''s1'' ''h3'' = (None, None)
   \<and> fst (create_flow_rules (init_path_to_flow net_topology) [''h1'', ''s1'', ''h3''] (Some ''f1'') 1000) =
       [\<lparr>switch = ''s1'', flow_id = ''f1_forward'', in_port = Some 1, out_port = None,
         priority = 1000, path = [''h1'', ''s1'', ''h3''], direction = ''forward''\<rparr>,
        \<lparr>switch = ''s1'', flow_id = ''f1_reverse'', in_port = None, out_port = Some 1,
         priority = 1000, path = [''h3'', ''s1'', ''h1''], direction = ''reverse''\<rparr>]
   \<and> active_flows (snd (create_flow_rules (init_path_to_flow net_topology)
                           [''h1'', ''s1'', ''h3''] (Some ''f1'') 1000)) ''f1'' =
       Some (fst (create_flow_rules (init_path_to_flow net_topology)
                           [''h1'', ''s1'', ''h3''] (Some ''f1'') 1000))"
  by code_simp

section \<open>The port mapping\<close>

text \<open>
  C8 says that \<^verbatim>\<open>port_mapping[n][m]\<close> is the port of \<^verbatim>\<open>n\<close> itself on the edge to
  \<^verbatim>\<open>m\<close>. On the sample topology the edge of \<^verbatim>\<open>h1\<close> and \<^verbatim>\<open>s1\<close> has \<^verbatim>\<open>h1\<close> as its
  source endpoint with source port 0, and the mapping gives \<^verbatim>\<open>h1\<close> the port 1, the target
  port: no edge carries the key \<^verbatim>\<open>source\<close> that \<^verbatim>\<open>_build_port_mapping\<close> compares the
  node with.
\<close>

theorem port_mapping_takes_target_port:
  "raw_links net_topology =
     [\<lparr>source = ''h1'', target = ''s1'', source_port = 0, target_port = 1\<rparr>,
      \<lparr>source = ''h2'', target = ''s1'', source_port = 0, target_port = 2\<rparr>]
   \<and> get_edge_data (graph net_topology) ''h1'' ''s1'' =
       \<lparr>edge_source = None, edge_source_port = Some 0, edge_target_port = Some 1\<rparr>
   \<and> port_mapping net_topology =
       [(''s1'', [(''h1'', 1), (''h2'', 2)]), (''h1'', [(''s1'', 1)]), (''h2'', [(''s1'', 2)])]
   \<and> map_of (the (map_of (port_mapping net_topology) ''h1'')) ''s1'' = Some 1"
  by code_simp

section \<open>Counterexamples\<close>

text \<open>
  Against C4 as stated: for a path of fewer than two nodes \<^verbatim>\<open>create_flow_rules\<close> returns
  before it touches the registry, so the flow id is not registered.
\<close>

theorem short_path_not_registered:
  "fst (create_flow_rules (init_path_to_flow net_topology) [''h1''] (Some ''f1'') 1000) = []
   \<and> active_flows (snd (create_flow_rules (init_path_to_flow net_topology) [''h1''] (Some ''f1'') 1000)) ''f1''
       = None"
  by (simp add: create_flow_rules_def init_path_to_flow_def)

text \<open>
  Against C5 as stated: for equal endpoints the path found is the one node, which
  \<^verbatim>\<open>validate_path\<close> rejects as too short.
\<close>

theorem one_node_path_rejected:
  "find_path net_topology ''s1'' ''s1'' ''dijkstra'' = Some [''s1'']
   \<and> validate_path (init_path_to_flow net_topology) [''s1'']
       = (False, ''Path must have at least 2 nodes'')"
  by code_simp

text \<open>
  Against C6 as stated: a link from a switch to itself is an edge of the discovered
  topology, and its two ports are returned in the stored order whatever the query.
\<close>

theorem self_loop_not_symmetric:
  "fst (extract_topology init_topology loop_dump)
   \<and> has_edge (graph (snd (extract_topology init_topology loop_dump))) ''s1'' ''s1''
   \<and> get_port_pair (init_path_to_flow (snd (extract_topology init_topology loop_dump))) ''s1'' ''s1''
       = (Some 2, Some 1)
   \<and> get_port_pair (init_path_to_flow (snd (extract_topology init_topology loop_dump))) ''s1'' ''s1''
       \<noteq> prod.swap
           (get_port_pair (init_path_to_flow (snd (extract_topology init_topology loop_dump))) ''s1'' ''s1'')"
  by code_simp


section \<open>The active-flow registry\<close>

text \<open>
  C4, as amended: for every path of at least two nodes and every flow id \<open>f\<close>, after
  \<^verbatim>\<open>create_flow_rules(p, f)\<close> the registry maps \<open>f\<close> to the rule list returned; a
  following \<^verbatim>\<open>delete_flow_rules(f)\<close> returns one delete command per stored rule and takes
  \<open>f\<close> out of the registry, which is otherwise unchanged; a second
  \<^verbatim>\<open>delete_flow_rules(f)\<close> finds no entry for \<open>f\<close>, returns no command and leaves the
  registry as it is.
\<close>

theorem registry_round_trip:
  assumes "2 \<le> length pth"
  shows "(case create_flow_rules ptf pth (Some f) prio of (rules, ptf1) \<Rightarrow>
          active_flows ptf1 f = Some rules
          \<and> (case delete_flow_rules ptf1 f of (cmds, ptf2) \<Rightarrow>
               cmds = map delete_command rules
               \<and> length cmds = length rules
               \<and> active_flows ptf2 = (active_flows ptf1)(f := None)
               \<and> f \<notin> dom (active_flows ptf2)
               \<and> delete_flow_rules ptf2 f = ([], ptf2)))"
  using assms
  by (auto simp: create_flow_rules_def delete_flow_rules_def Let_def split: prod.splits)

theorem registry_round_trip_witness:
  "2 \<le> length [''h1'', ''s1'', ''h2'']
   \<and> (case create_flow_rules (init_path_to_flow net_topology) [''h1'', ''s1'', ''h2''] (Some ''f1'') 1000 of
        (rules, ptf1) \<Rightarrow>
          active_flows ptf1 ''f1'' = Some rules
          \<and> (case delete_flow_rules ptf1 ''f1'' of (cmds, ptf2) \<Rightarrow>
               cmds = map delete_command rules
               \<and> length cmds = length rules
               \<and> active_flows ptf2 = (active_flows ptf1)(''f1'' := None)
               \<and> ''f1'' \<notin> dom (active_flows ptf2)
               \<and> delete_flow_rules ptf2 ''f1'' = ([], ptf2)))"
  using registry_round_trip [where pth = "[''h1'', ''s1'', ''h2'']" and ptf = "init_path_to_flow net_topology"
      and f = "''f1''" and prio = 1000]
  by simp

section \<open>The rules of a path\<close>

lemma update_fresh: "k \<notin> fst ` set al \<Longrightarrow> AList.update k v al = al @ [(k, v)]"
  by (induction al) auto

text \<open>The entry of \<^verbatim>\<open>switch_port_map\<close> for the switch at position \<open>i\<close>.\<close>

lemma fold_switch_step:
  "distinct (map ((!) pth) is) \<Longrightarrow> (\<forall>i\<in>set is. pth ! i \<notin> fst ` set m) \<Longrightarrow>
   fold (switch_step ptf pth) is m =
     m @ map (\<lambda>i. (pth ! i, snd (get_port_pair ptf (pth ! (i - 1)) (pth ! i)),
                          fst (get_port_pair ptf (pth ! i) (pth ! (i + 1)))))
             (filter (\<lambda>i. startswith (pth ! i) ''s'') is)"
proof (induction "is" arbitrary: m)
  case Nil
  then show ?case by simp
next
  case (Cons i "is")
  let ?e = "(pth ! i, snd (get_port_pair ptf (pth ! (i - 1)) (pth ! i)),
                     fst (get_port_pair ptf (pth ! i) (pth ! (i + 1))))"
  show ?case
  proof (cases "startswith (pth ! i) ''s''")
    case False
    then have "switch_step ptf pth i m = m" by (simp add: switch_step_def)
    with Cons False show ?thesis by simp
  next
    case True
    from Cons.prems have fresh: "pth ! i \<notin> fst ` set m" by simp
    have step: "switch_step ptf pth i m = m @ [?e]"
      using True update_fresh[OF fresh] by (simp add: switch_step_def is_None_def Let_def)
    have "pth ! j \<noteq> pth ! i" if "j \<in> set is" for j
    proof
      assume "pth ! j = pth ! i"
      with that have "pth ! i \<in> (!) pth ` set is" by (metis imageI)
      with Cons.prems(1) show False by simp
    qed
    then have fr: "\<forall>j\<in>set is. pth ! j \<notin> fst ` set (m @ [?e])"
      using Cons.prems(2) by auto
    have di: "distinct (map ((!) pth) is)" using Cons.prems by simp
    have "fold (switch_step ptf pth) is (m @ [?e]) =
       (m @ [?e]) @ map (\<lambda>i. (pth ! i, snd (get_port_pair ptf (pth ! (i - 1)) (pth ! i)),
                          fst (get_port_pair ptf (pth ! i) (pth ! (i + 1)))))
             (filter (\<lambda>i. startswith (pth ! i) ''s'') is)"
      by (rule Cons.IH[OF di fr])
    with step True show ?thesis by simp
  qed
qed

lemma valid_path_distinct:
  "fst (validate_path ptf pth) \<Longrightarrow> 2 \<le> length pth \<and> distinct pth"
  by (auto simp: validate_path_def Let_def card_distinct split: if_splits option.splits prod.splits)

lemma distinct_interior: "distinct pth \<Longrightarrow> distinct (map ((!) pth) [1..<length pth - 1])"
  by (auto simp: distinct_map inj_on_def nth_eq_iff_index_eq)

lemma length_concat_pairs: "length (concat (map (\<lambda>i. [f i, g i]) xs)) = 2 * length xs"
  by (induction xs) auto

text \<open>
  C2: for every path that \<^verbatim>\<open>validate_path\<close> accepts, with \<open>k\<close> interior nodes whose names
  carry the switch prefix, all of whose ingress and egress port lookups succeed,
  \<^verbatim>\<open>create_flow_rules\<close> returns exactly \<open>2k\<close> rules: in path order, for each such switch
  one rule with direction \<^verbatim>\<open>forward\<close> (in_port the ingress port, out_port the egress port,
  the path in its order) followed by one with direction \<^verbatim>\<open>reverse\<close> (the ports exchanged,
  the path reversed), with the flow id extended by \<^verbatim>\<open>_forward\<close> and \<^verbatim>\<open>_reverse\<close>; every
  port in them is resolved.
\<close>

theorem rule_count:
  assumes "fst (validate_path ptf pth)"
    and "\<forall>i\<in>set (interior_switches pth).
           snd (get_port_pair ptf (pth ! (i - 1)) (pth ! i)) \<noteq> None
           \<and> fst (get_port_pair ptf (pth ! i) (pth ! (i + 1))) \<noteq> None"
  shows "fst (create_flow_rules ptf pth (Some f) prio) =
           concat (map (\<lambda>i.
             [\<lparr>switch = pth ! i, flow_id = f @ ''_forward'',
               in_port = snd (get_port_pair ptf (pth ! (i - 1)) (pth ! i)),
               out_port = fst (get_port_pair ptf (pth ! i) (pth ! (i + 1))),
               priority = prio, path = pth, direction = ''forward''\<rparr>,
              \<lparr>switch = pth ! i, flow_id = f @ ''_reverse'',
               in_port = fst (get_port_pair ptf (pth ! i) (pth ! (i + 1))),
               out_port = snd (get_port_pair ptf (pth ! (i - 1)) (pth ! i)),
               priority = prio, path = rev pth, direction = ''reverse''\<rparr>])
             (interior_switches pth))
         \<and> length (fst (create_flow_rules ptf pth (Some f) prio)) = 2 * length (interior_switches pth)
         \<and> (\<forall>r\<in>set (fst (create_flow_rules ptf pth (Some f) prio)).
               in_port r \<noteq> None \<and> out_port r \<noteq> None)"
proof -
  from assms(1) have len: "2 \<le> length pth" and dist: "distinct pth"
    using valid_path_distinct by blast+
  have m: "fold (switch_step ptf pth) [1..<length pth - 1] [] =
     map (\<lambda>i. (pth ! i, snd (get_port_pair ptf (pth ! (i - 1)) (pth ! i)),
                          fst (get_port_pair ptf (pth ! i) (pth ! (i + 1)))))
         (interior_switches pth)"
    using fold_switch_step[OF distinct_interior[OF dist], of "[]" ptf]
    by (simp add: interior_switches_def)
  have eq: "fst (create_flow_rules ptf pth (Some f) prio) =
           concat (map (\<lambda>i.
             [\<lparr>switch = pth ! i, flow_id = f @ ''_forward'',
               in_port = snd (get_port_pair ptf (pth ! (i - 1)) (pth ! i)),
               out_port = fst (get_port_pair ptf (pth ! i) (pth ! (i + 1))),
               priority = prio, path = pth, direction = ''forward''\<rparr>,
              \<lparr>switch = pth ! i, flow_id = f @ ''_reverse'',
               in_port = fst (get_port_pair ptf (pth ! i) (pth ! (i + 1))),
               out_port = snd (get_port_pair ptf (pth ! (i - 1)) (pth ! i)),
               priority = prio, path = rev pth, direction = ''reverse''\<rparr>])
             (interior_switches pth))"
  proof -
    from len have ne: "pth \<noteq> []" by auto
    have "fst (create_flow_rules ptf pth (Some f) prio) =
       concat (map (rule_pair f prio pth) (fold (switch_step ptf pth) [1..<length pth - 1] []))"
      using len ne by (simp add: create_flow_rules_def Let_def)
    then show ?thesis
      unfolding m by (simp add: rule_pair_def comp_def)
  qed
  have cnt: "length (fst (create_flow_rules ptf pth (Some f) prio)) = 2 * length (interior_switches pth)"
    unfolding eq by (rule length_concat_pairs)
  have ports: "\<forall>r\<in>set (fst (create_flow_rules ptf pth (Some f) prio)).
               in_port r \<noteq> None \<and> out_port r \<noteq> None"
    unfolding eq using assms(2) by auto
  from eq cnt ports show ?thesis by blast
qed

theorem rule_count_witness:
  "fst (validate_path (init_path_to_flow net_topology) [''h1'', ''s1'', ''h2''])
   \<and> interior_switches [''h1'', ''s1'', ''h2''] = [1]
   \<and> get_port_pair (init_path_to_flow net_topology) ''h1'' ''s1'' = (Some 0, Some 1)
   \<and> get_port_pair (init_path_to_flow net_topology) ''s1'' ''h2'' = (Some 2, Some 0)
   \<and> length (fst (create_flow_rules (init_path_to_flow net_topology) [''h1'', ''s1'', ''h2''] (Some ''f1'') 1000)) = 2
   \<and> fst (create_flow_rules (init_path_to_flow net_topology) [''h1'', ''s1'', ''h2''] (Some ''f1'') 1000) =
       [\<lparr>switch = ''s1'', flow_id = ''f1_forward'', in_port = Some 1, out_port = Some 2,
         priority = 1000, path = [''h1'', ''s1'', ''h2''], direction = ''forward''\<rparr>,
        \<lparr>switch = ''s1'', flow_id = ''f1_reverse'', in_port = Some 2, out_port = Some 1,
         priority = 1000, path = [''h2'', ''s1'', ''h1''], direction = ''reverse''\<rparr>]"
proof -
  have v: "fst (validate_path (init_path_to_flow net_topology) [''h1'', ''s1'', ''h2''])"
    by code_simp
  have i: "interior_switches [''h1'', ''s1'', ''h2''] = [1]"
    by code_simp
  have a: "get_port_pair (init_path_to_flow net_topology) ''h1'' ''s1'' = (Some 0, Some 1)"
    by code_simp
  have b: "get_port_pair (init_path_to_flow net_topology) ''s1'' ''h2'' = (Some 2, Some 0)"
    by code_simp
  have h: "\<forall>i\<in>set (interior_switches [''h1'', ''s1'', ''h2'']).
           snd (get_port_pair (init_path_to_flow net_topology) ([''h1'', ''s1'', ''h2''] ! (i - 1)) ([''h1'', ''s1'', ''h2''] ! i)) \<noteq> None
           \<and> fst (get_port_pair (init_path_to_flow net_topology) ([''h1'', ''s1'', ''h2''] ! i) ([''h1'', ''s1'', ''h2''] ! (i + 1))) \<noteq> None"
    using a b by (simp add: i)
  show ?thesis
    using rule_count [OF v h, of "''f1''" 1000] v a b by (simp add: i)
qed

section \<open>The raw link list\<close>

lemma make_link_ordered: "source (make_link t) \<le> target (make_link t)"
  by (cases t) (auto simp: make_link_def)

lemma make_link_pair: "link_pair (make_link t) = token_pair t"
  by (cases t) (auto simp: make_link_def link_pair_def token_pair_def)

lemma make_link_ports: "ports_carried t (make_link t)"
  by (cases t) (auto simp: make_link_def ports_carried_def)

lemma ordered_pair_eq:
  fixes a b c d :: string
  assumes "a \<le> b" "c \<le> d"
  shows "{a, b} = {c, d} \<longleftrightarrow> (a, b) = (c, d)"
  using assms by (auto simp: doubleton_eq_iff)

lemma fold_parse_line_links:
  "snd (snd (fold parse_line lines acc)) =
     snd (snd acc) @ map make_link (concat (map line_tokens lines))"
proof (induction lines arbitrary: acc)
  case Nil
  then show ?case by simp
next
  case (Cons line lines)
  obtain sws hs ls where acc: "acc = (sws, hs, ls)" by (cases acc) auto
  have "snd (snd (parse_line line acc)) = ls @ map make_link (line_tokens line)"
    by (simp add: acc parse_line_def line_tokens_def Let_def split: option.splits)
  with Cons.IH[of "parse_line line acc"] show ?case by (simp add: acc)
qed

lemma parse_links:
  "links (parse_net_output out) = unique_links {} (map make_link (dump_tokens out))"
proof -
  obtain sws hs ls where f: "scan_lines out = (sws, hs, ls)"
    by (cases "scan_lines out") auto
  have "ls = map make_link (dump_tokens out)"
    using fold_parse_line_links[of "dump_lines out" "({}, {}, [])"] f
    by (simp add: scan_lines_def dump_tokens_def)
  then show ?thesis by (simp add: parse_net_output_def f)
qed

lemma unique_links_first:
  "l \<in> set (unique_links seen ls) \<Longrightarrow>
     (source l, target l) \<notin> seen
     \<and> find (\<lambda>l'. (source l', target l') = (source l, target l)) ls = Some l"
proof (induction ls arbitrary: seen)
  case Nil
  then show ?case by simp
next
  case (Cons l0 ls)
  show ?case
  proof (cases "(source l0, target l0) \<in> seen")
    case True
    with Cons.prems have "l \<in> set (unique_links seen ls)" by simp
    from Cons.IH[OF this] True show ?thesis by auto
  next
    case False
    with Cons.prems have "l = l0 \<or> l \<in> set (unique_links (insert (source l0, target l0) seen) ls)"
      by auto
    then show ?thesis
    proof
      assume "l = l0"
      with False show ?thesis by simp
    next
      assume "l \<in> set (unique_links (insert (source l0, target l0) seen) ls)"
      from Cons.IH[OF this] show ?thesis by auto
    qed
  qed
qed

lemma unique_links_keys:
  "distinct (map (\<lambda>l. (source l, target l)) (unique_links seen ls))"
proof (induction ls arbitrary: seen)
  case Nil
  then show ?case by simp
next
  case (Cons l0 ls)
  show ?case
  proof (cases "(source l0, target l0) \<in> seen")
    case True
    with Cons.IH show ?thesis by simp
  next
    case False
    have "(source l0, target l0) \<noteq> (source l, target l)"
      if "l \<in> set (unique_links (insert (source l0, target l0) seen) ls)" for l
      using unique_links_first[OF that] by auto
    with False Cons.IH[of "insert (source l0, target l0) seen"] show ?thesis
      by (auto simp: image_iff)
  qed
qed

lemma unique_links_subset: "set (unique_links seen ls) \<subseteq> set ls"
  by (induction ls arbitrary: seen) auto

lemma unique_links_covers:
  "l \<in> set ls \<Longrightarrow> (source l, target l) \<notin> seen \<Longrightarrow>
     \<exists>l'\<in>set (unique_links seen ls). (source l', target l') = (source l, target l)"
proof (induction ls arbitrary: seen)
  case Nil
  then show ?case by simp
next
  case (Cons l0 ls)
  show ?case
  proof (cases "(source l0, target l0) = (source l, target l)")
    case True
    with Cons.prems show ?thesis by auto
  next
    case False
    with Cons.prems have m: "l \<in> set ls" by auto
    show ?thesis
    proof (cases "(source l0, target l0) \<in> seen")
      case True
      with Cons.IH[OF m Cons.prems(2)] show ?thesis by simp
    next
      case nin: False
      from False Cons.prems(2) have "(source l, target l) \<notin> insert (source l0, target l0) seen"
        by auto
      from Cons.IH[OF m this] nin show ?thesis by auto
    qed
  qed
qed

lemma distinct_map_coarser:
  assumes d: "distinct (map f xs)"
    and c: "\<And>x y. x \<in> set xs \<Longrightarrow> y \<in> set xs \<Longrightarrow> g x = g y \<Longrightarrow> f x = f y"
  shows "distinct (map g xs)"
proof -
  from d have dx: "distinct xs" and inj: "inj_on f (set xs)"
    by (simp_all add: distinct_map)
  have "inj_on g (set xs)"
  proof (rule inj_onI)
    fix x y assume x: "x \<in> set xs" and y: "y \<in> set xs" and e: "g x = g y"
    from x y e have "f x = f y" by (rule c)
    from inj this x y show "x = y" by (rule inj_onD)
  qed
  with dx show ?thesis by (simp add: distinct_map)
qed

lemma find_map_comp: "find P (map f xs) = map_option f (find (\<lambda>x. P (f x)) xs)"
  by (induction xs) auto

text \<open>
  C7: after parsing any dump, the raw link list has at most one record for an unordered
  node pair; every record has the lexicographically smaller node name as its source (for
  a link from a node to itself the two are equal); the record for a pair is made from the
  first token of the dump that is about that pair, each port staying with its node;
  and every pair some token is about has its record.
\<close>

theorem raw_links_deduplicated:
  "distinct (map link_pair (links (parse_net_output out)))
   \<and> (\<forall>l\<in>set (links (parse_net_output out)).
         source l \<le> target l
         \<and> (\<exists>t. find (\<lambda>t'. token_pair t' = link_pair l) (dump_tokens out) = Some t
                \<and> l = make_link t \<and> ports_carried t l))
   \<and> (\<forall>t\<in>set (dump_tokens out).
         \<exists>l\<in>set (links (parse_net_output out)). link_pair l = token_pair t)"
proof -
  let ?toks = "dump_tokens out"
  let ?ls = "map make_link ?toks"
  let ?us = "unique_links {} ?ls"
  have us: "links (parse_net_output out) = ?us" by (rule parse_links)
  have ord: "source l \<le> target l" if "l \<in> set ?us" for l
    using that unique_links_subset[of "{}" ?ls] make_link_ordered by auto
  have key_pair: "link_pair l = link_pair l' \<longleftrightarrow> (source l, target l) = (source l', target l')"
    if "source l \<le> target l" "source l' \<le> target l'" for l l'
    using ordered_pair_eq[OF that] by (simp add: link_pair_def)
  have 1: "distinct (map link_pair ?us)"
  proof (rule distinct_map_coarser[where f = "\<lambda>l. (source l, target l)"])
    show "distinct (map (\<lambda>l. (source l, target l)) ?us)" by (rule unique_links_keys)
  next
    fix x y assume x: "x \<in> set ?us" and y: "y \<in> set ?us" and e: "link_pair x = link_pair y"
    from key_pair[OF ord[OF x] ord[OF y]] e
    show "(source x, target x) = (source y, target y)" by blast
  qed
  have 2: "\<exists>t. find (\<lambda>t'. token_pair t' = link_pair l) ?toks = Some t
                \<and> l = make_link t \<and> ports_carried t l" if "l \<in> set ?us" for l
  proof -
    from unique_links_first[OF that]
    have f: "find (\<lambda>l'. (source l', target l') = (source l, target l)) ?ls = Some l" by simp
    have "find (\<lambda>t'. token_pair t' = link_pair l) ?toks
            = find (\<lambda>t'. (source (make_link t'), target (make_link t')) = (source l, target l)) ?toks"
    proof (rule find_cong[OF refl])
      fix t' assume "t' \<in> set ?toks"
      have "token_pair t' = link_pair (make_link t')" by (simp add: make_link_pair)
      also have "\<dots> = link_pair l \<longleftrightarrow> (source (make_link t'), target (make_link t')) = (source l, target l)"
        using key_pair[OF make_link_ordered ord[OF that]] by simp
      finally show "(token_pair t' = link_pair l)
          = ((source (make_link t'), target (make_link t')) = (source l, target l))" by simp
    qed
    with f obtain t where "find (\<lambda>t'. token_pair t' = link_pair l) ?toks = Some t" "l = make_link t"
      by (auto simp: find_map_comp)
    then show ?thesis using make_link_ports by blast
  qed
  have 3: "\<exists>l\<in>set ?us. link_pair l = token_pair t" if "t \<in> set ?toks" for t
  proof -
    from that have "make_link t \<in> set ?ls" by simp
    from unique_links_covers[OF this, of "{}"]
    obtain l' where l': "l' \<in> set ?us"
      "(source l', target l') = (source (make_link t), target (make_link t))" by auto
    then have "link_pair l' = link_pair (make_link t)" by (simp add: link_pair_def)
    with l' show ?thesis by (auto simp: make_link_pair)
  qed
  show ?thesis unfolding us
  proof (intro conjI ballI)
    show "distinct (map link_pair ?us)" by (rule 1)
  next
    fix l assume "l \<in> set ?us"
    then show "source l \<le> target l" by (rule ord)
  next
    fix l assume "l \<in> set ?us"
    then show "\<exists>t. find (\<lambda>t'. token_pair t' = link_pair l) ?toks = Some t
                \<and> l = make_link t \<and> ports_carried t l" by (rule 2)
  next
    fix t assume "t \<in> set ?toks"
    then show "\<exists>l\<in>set ?us. link_pair l = token_pair t" by (rule 3)
  qed
qed

theorem raw_links_deduplicated_witness:
  "dump_tokens net_dump =
     [(''h1'', 0, ''s1'', 1), (''h2'', 0, ''s1'', 2), (''s1'', 1, ''h1'', 0), (''s1'', 2, ''h2'', 0)]
   \<and> links (parse_net_output net_dump) =
       [\<lparr>source = ''h1'', target = ''s1'', source_port = 0, target_port = 1\<rparr>,
        \<lparr>source = ''h2'', target = ''s1'', source_port = 0, target_port = 2\<rparr>]
   \<and> distinct (map link_pair (links (parse_net_output net_dump)))
   \<and> find (\<lambda>t'. token_pair t' =
                 link_pair \<lparr>source = ''h1'', target = ''s1'', source_port = 0, target_port = 1\<rparr>)
          (dump_tokens net_dump) = Some (''h1'', 0, ''s1'', 1)
   \<and> ports_carried (''h1'', 0, ''s1'', 1)
         \<lparr>source = ''h1'', target = ''s1'', source_port = 0, target_port = 1\<rparr>"
proof -
  have t: "dump_tokens net_dump =
     [(''h1'', 0, ''s1'', 1), (''h2'', 0, ''s1'', 2), (''s1'', 1, ''h1'', 0), (''s1'', 2, ''h2'', 0)]"
    by code_simp
  have l: "links (parse_net_output net_dump) =
       [\<lparr>source = ''h1'', target = ''s1'', source_port = 0, target_port = 1\<rparr>,
        \<lparr>source = ''h2'', target = ''s1'', source_port = 0, target_port = 2\<rparr>]"
    by (simp add: parse_net_dump)
  have d: "distinct (map link_pair (links (parse_net_output net_dump)))"
    using raw_links_deduplicated [of net_dump] by blast
  have f: "find (\<lambda>t'. token_pair t' =
                 link_pair \<lparr>source = ''h1'', target = ''s1'', source_port = 0, target_port = 1\<rparr>)
          (dump_tokens net_dump) = Some (''h1'', 0, ''s1'', 1)"
    unfolding t by (simp add: token_pair_def link_pair_def)
  have p: "ports_carried (''h1'', 0, ''s1'', 1)
         \<lparr>source = ''h1'', target = ''s1'', source_port = 0, target_port = 1\<rparr>"
    by (simp add: ports_carried_def)
  from t l d f p show ?thesis by blast
qed

section \<open>Graphs made by \<^verbatim>\<open>add_node\<close> and \<^verbatim>\<open>add_edge\<close>\<close>

lemma map_of_set_adj:
  "map_of (set_adj adj u v d) a =
     (if a = u then Some (AList.update v d (case map_of adj u of None \<Rightarrow> [] | Some x \<Rightarrow> x))
      else map_of adj a)"
  by (simp add: set_adj_def update_conv')

lemma has_node_ensure: "has_node (ensure_node g n) m \<longleftrightarrow> has_node g m \<or> m = n"
  by (auto simp: has_node_def ensure_node_def update_conv')

lemma has_edge_ensure: "has_edge (ensure_node g n) a b \<Longrightarrow> has_edge g a b"
  by (auto simp: has_edge_def ensure_node_def update_conv' split: if_splits option.splits)

lemma has_node_add_node: "has_node (add_node g n f) m \<longleftrightarrow> has_node g m \<or> m = n"
  by (auto simp: has_node_def add_node_def update_conv' split: option.splits)

lemma has_edge_add_node: "has_edge (add_node g n f) a b \<Longrightarrow> has_edge g a b"
  by (auto simp: has_edge_def add_node_def update_conv' split: if_splits option.splits)

lemma has_node_add_edge: "has_node (add_edge g u v f) m \<longleftrightarrow> has_node g m \<or> m = u \<or> m = v"
  using has_node_ensure[of "ensure_node g u" v m] has_node_ensure[of g u m]
  by (auto simp: add_edge_def Let_def has_node_def)

lemma has_edge_add_edge:
  "has_edge (add_edge g u v f) a b \<Longrightarrow> has_edge g a b \<or> (a = u \<and> b = v) \<or> (a = v \<and> b = u)"
proof -
  let ?g2 = "ensure_node (ensure_node g u) v"
  assume h: "has_edge (add_edge g u v f) a b"
  have old: "has_edge ?g2 a b \<Longrightarrow> has_edge g a b"
    by (blast dest: has_edge_ensure)
  show ?thesis
  proof (rule ccontr)
    assume n: "\<not> (has_edge g a b \<or> (a = u \<and> b = v) \<or> (a = v \<and> b = u))"
    then have "\<not> has_edge ?g2 a b" using old by blast
    with n h show False
      by (auto simp: add_edge_def Let_def has_edge_def map_of_set_adj update_conv'
               split: if_splits option.splits)
  qed
qed

lemma has_edge_empty: "\<not> has_edge empty_graph a b"
  by (simp add: has_edge_def empty_graph_def)

lemma has_edge_fold_add_node:
  "has_edge (fold (\<lambda>x g. add_node g (nm x) (at x)) xs g) a b \<Longrightarrow> has_edge g a b"
  by (induction xs arbitrary: g) (auto dest: has_edge_add_node)

lemma has_edge_fold_add_edge:
  "has_edge (fold (\<lambda>l g. add_edge g (source l) (target l) (at l)) ls g) a b \<Longrightarrow>
     has_edge g a b \<or> (\<exists>l\<in>set ls. joins l a b)"
proof (induction ls arbitrary: g)
  case Nil
  then show ?case by simp
next
  case (Cons l ls)
  from Cons.prems have
    "has_edge (fold (\<lambda>l g. add_edge g (source l) (target l) (at l)) ls
                 (add_edge g (source l) (target l) (at l))) a b" by simp
  from Cons.IH[OF this] show ?case
  proof
    assume "has_edge (add_edge g (source l) (target l) (at l)) a b"
    from has_edge_add_edge[OF this] show ?thesis by (auto simp: joins_def)
  next
    assume "\<exists>l\<in>set ls. joins l a b"
    then show ?thesis by auto
  qed
qed

lemma has_edge_build_graph:
  assumes "has_edge (build_graph sws hs ls) a b"
  shows "\<exists>l\<in>set ls. joins l a b"
proof -
  define g1 where "g1 = fold (\<lambda>switch g.
                       add_node g (sw_name switch)
                         (\<lambda>d. d\<lparr>node_type := Some ''switch'', node_dpid := Some (dpid switch)\<rparr>))
                    sws empty_graph"
  define g2 where "g2 = fold (\<lambda>host g.
                       add_node g (host_name host)
                         (\<lambda>d. d\<lparr>node_type := Some ''host'', node_ip := Some (ip host)\<rparr>))
                    hs g1"
  have bg: "build_graph sws hs ls =
      fold (\<lambda>link g.
                 add_edge g (source link) (target link)
                   (\<lambda>d. d\<lparr>edge_source_port := Some (source_port link),
                           edge_target_port := Some (target_port link)\<rparr>))
              ls g2"
    by (simp add: build_graph_def g1_def g2_def Let_def)
  have n1: "\<not> has_edge g1 a b"
    unfolding g1_def
    using has_edge_fold_add_node[where nm = sw_name and xs = sws and g = empty_graph
        and at = "\<lambda>switch d. d\<lparr>node_type := Some ''switch'', node_dpid := Some (dpid switch)\<rparr>"]
      has_edge_empty by blast
  have n2: "\<not> has_edge g2 a b"
    unfolding g2_def
    using has_edge_fold_add_node[where nm = host_name and xs = hs and g = g1
        and at = "\<lambda>host d. d\<lparr>node_type := Some ''host'', node_ip := Some (ip host)\<rparr>"]
      n1 by blast
  from assms have "has_edge (fold (\<lambda>link g.
                 add_edge g (source link) (target link)
                   (\<lambda>d. d\<lparr>edge_source_port := Some (source_port link),
                           edge_target_port := Some (target_port link)\<rparr>))
              ls g2) a b"
    by (simp add: bg)
  from has_edge_fold_add_edge[where at = "\<lambda>link d. d\<lparr>edge_source_port := Some (source_port link),
                           edge_target_port := Some (target_port link)\<rparr>", OF this] n2
  show ?thesis by blast
qed

subsection \<open>Edges are stored both ways, between nodes\<close>

lemma has_edge_neighbors: "has_edge g a b \<longleftrightarrow> b \<in> set (neighbors g a)"
proof (cases "map_of (g_adj g) a")
  case None
  then show ?thesis by (simp add: has_edge_def neighbors_def adj_of_def)
next
  case (Some d)
  then show ?thesis by (simp add: has_edge_def neighbors_def adj_of_def map_of_eq_None_iff)
qed

lemma has_edge_ensure_wf:
  assumes "wf_graph g"
  shows "has_edge (ensure_node g n) a b \<longleftrightarrow> has_edge g a b"
proof (cases "map_of (g_node g) n = None")
  case False
  then show ?thesis by (auto simp: ensure_node_def)
next
  case True
  then have nn: "\<not> has_node g n" by (simp add: has_node_def)
  show ?thesis
  proof (cases "a = n")
    case False
    with True show ?thesis by (simp add: ensure_node_def has_edge_def update_conv')
  next
    case an: True
    have "\<not> has_edge g n b"
    proof
      assume "has_edge g n b"
      with assms have "has_edge g b n" by (simp add: wf_graph_def)
      with assms have "has_node g n" unfolding wf_graph_def by blast
      with nn show False by simp
    qed
    moreover have "\<not> has_edge (ensure_node g n) n b"
      using True by (simp add: ensure_node_def has_edge_def update_conv')
    ultimately show ?thesis using an by simp
  qed
qed

lemma wf_ensure: "wf_graph g \<Longrightarrow> wf_graph (ensure_node g n)"
  unfolding wf_graph_def
  by (simp add: has_edge_ensure_wf[unfolded wf_graph_def] has_node_ensure)

lemma has_edge_add_node_wf:
  assumes "wf_graph g"
  shows "has_edge (add_node g n f) a b \<longleftrightarrow> has_edge g a b"
proof (cases "map_of (g_node g) n")
  case (Some d)
  then show ?thesis by (simp add: add_node_def has_edge_def)
next
  case None
  then have nn: "\<not> has_node g n" by (simp add: has_node_def)
  show ?thesis
  proof (cases "a = n")
    case False
    with None show ?thesis by (simp add: add_node_def has_edge_def update_conv')
  next
    case an: True
    have "\<not> has_edge g n b"
    proof
      assume "has_edge g n b"
      with assms have "has_edge g b n" by (simp add: wf_graph_def)
      with assms have "has_node g n" unfolding wf_graph_def by blast
      with nn show False by simp
    qed
    moreover have "\<not> has_edge (add_node g n f) n b"
      using None by (simp add: add_node_def has_edge_def update_conv')
    ultimately show ?thesis using an by simp
  qed
qed

lemma wf_add_node: "wf_graph g \<Longrightarrow> wf_graph (add_node g n f)"
  unfolding wf_graph_def
  by (simp add: has_edge_add_node_wf[unfolded wf_graph_def] has_node_add_node)

lemma has_edge_set_adj:
  "has_edge \<lparr>g_node = ns, g_adj = set_adj adj u v d\<rparr> a b \<longleftrightarrow>
     (a = u \<and> b = v) \<or> has_edge \<lparr>g_node = ns, g_adj = adj\<rparr> a b"
  by (auto simp: has_edge_def map_of_set_adj update_conv' split: option.splits)

lemma has_edge_add_edge_wf:
  assumes "wf_graph g"
  shows "has_edge (add_edge g u v f) a b \<longleftrightarrow> has_edge g a b \<or> (a = u \<and> b = v) \<or> (a = v \<and> b = u)"
proof -
  let ?g2 = "ensure_node (ensure_node g u) v"
  have e2: "has_edge ?g2 a b \<longleftrightarrow> has_edge g a b"
    using assms by (simp add: has_edge_ensure_wf wf_ensure)
  have "has_edge ?g2 a b = has_edge \<lparr>g_node = g_node ?g2, g_adj = g_adj ?g2\<rparr> a b"
    by (simp add: has_edge_def)
  then show ?thesis
    unfolding e2[symmetric]
    by (auto simp: add_edge_def Let_def has_edge_set_adj)
qed

lemma wf_add_edge: "wf_graph g \<Longrightarrow> wf_graph (add_edge g u v f)"
  unfolding wf_graph_def
  by (auto simp: has_edge_add_edge_wf[unfolded wf_graph_def] has_node_add_edge)

lemma wf_empty: "wf_graph empty_graph"
  by (simp add: wf_graph_def has_edge_empty)

lemma wf_fold_add_node:
  "wf_graph g \<Longrightarrow> wf_graph (fold (\<lambda>x g. add_node g (nm x) (at x)) xs g)"
  by (induction xs arbitrary: g) (simp_all add: wf_add_node)

lemma wf_fold_add_edge:
  "wf_graph g \<Longrightarrow> wf_graph (fold (\<lambda>l g. add_edge g (source l) (target l) (at l)) ls g)"
  by (induction ls arbitrary: g) (simp_all add: wf_add_edge)

lemma wf_build_graph: "wf_graph (build_graph sws hs ls)"
  unfolding build_graph_def Let_def
  by (intro wf_fold_add_edge wf_fold_add_node wf_empty)

section \<open>Port pairs in both query orders\<close>

lemma find_raw_link_joined:
  "\<exists>l\<in>set ls. joins l a b \<Longrightarrow> a \<noteq> b \<Longrightarrow>
     \<exists>p q. find_raw_link ls a b = (Some p, Some q) \<and> find_raw_link ls b a = (Some q, Some p)"
  by (induction ls) (auto simp: joins_def)

lemma find_raw_link_symmetric:
  "a \<noteq> b \<Longrightarrow> find_raw_link ls a b = prod.swap (find_raw_link ls b a)"
  by (induction ls) auto

lemma extract_net_dump: "extract_topology init_topology net_dump = (True, net_topology)"
proof -
  have "fst (extract_topology init_topology net_dump)" by code_simp
  then show ?thesis by (simp add: net_topology_def prod_eq_iff)
qed

text \<open>
  C6, as amended: for every edge between two different nodes \<open>a\<close> and \<open>b\<close> of a
  discovered topology, the port-pair lookup is answered from the raw link records, and the
  pair returned for the query order \<open>(a, b)\<close> is the componentwise reverse of the pair
  returned for \<open>(b, a)\<close>.
\<close>

theorem port_pair_symmetric:
  assumes "extract_topology tg0 out = (True, tg)"
    and "topology_graph ptf = tg"
    and "has_edge (graph tg) a b"
    and "a \<noteq> b"
  shows "\<exists>p q. get_port_pair_from_raw_links tg a b = (Some p, Some q)
               \<and> get_port_pair_from_raw_links tg b a = (Some q, Some p)
               \<and> get_port_pair ptf a b = (Some p, Some q)
               \<and> get_port_pair ptf b a = (Some q, Some p)"
proof -
  let ?info = "parse_net_output out"
  from assms(1) have tg: "tg = build_complete_graph (tg0\<lparr>net_output := out, raw_links := links ?info\<rparr>)
                            (switches ?info) (hosts ?info) (links ?info)"
    by (auto simp: extract_topology_def Let_def split: if_splits)
  then have raw: "raw_links tg = links ?info"
    and gr: "graph tg = build_graph (switches ?info) (hosts ?info) (links ?info)"
    by (simp_all add: build_complete_graph_def Let_def)
  from assms(3) have j: "\<exists>l\<in>set (raw_links tg). joins l a b"
    unfolding gr raw by (rule has_edge_build_graph)
  then have ne: "raw_links tg \<noteq> []" by auto
  from find_raw_link_joined[OF j assms(4)] obtain p q where
    pq: "find_raw_link (raw_links tg) a b = (Some p, Some q)"
        "find_raw_link (raw_links tg) b a = (Some q, Some p)" by blast
  have "get_port_pair_from_raw_links tg a b = (Some p, Some q)"
    and "get_port_pair_from_raw_links tg b a = (Some q, Some p)"
    using ne pq by (simp_all add: get_port_pair_from_raw_links_def)
  moreover from this have "get_port_pair ptf a b = (Some p, Some q)"
    and "get_port_pair ptf b a = (Some q, Some p)"
    using assms(2) by (simp_all add: get_port_pair_def Let_def)
  ultimately show ?thesis by blast
qed

theorem port_pair_symmetric_witness:
  "extract_topology init_topology net_dump = (True, net_topology)
   \<and> has_edge (graph net_topology) ''s1'' ''h1''
   \<and> get_port_pair (init_path_to_flow net_topology) ''s1'' ''h1'' = (Some 1, Some 0)
   \<and> get_port_pair (init_path_to_flow net_topology) ''h1'' ''s1'' = (Some 0, Some 1)"
proof -
  have t: "topology_graph (init_path_to_flow net_topology) = net_topology"
    by (simp add: init_path_to_flow_def)
  have h: "has_edge (graph net_topology) ''s1'' ''h1''" by code_simp
  have n: "''s1'' \<noteq> ''h1''" by simp
  from port_pair_symmetric [OF extract_net_dump t h n] obtain p q where
    ab: "get_port_pair (init_path_to_flow net_topology) ''s1'' ''h1'' = (Some p, Some q)" and
    ba: "get_port_pair (init_path_to_flow net_topology) ''h1'' ''s1'' = (Some q, Some p)" by blast
  have "get_port_pair (init_path_to_flow net_topology) ''s1'' ''h1'' = (Some 1, Some 0)"
    by code_simp
  with ab have "p = 1" "q = 0" by simp_all
  with ab ba h extract_net_dump show ?thesis by simp
qed

section \<open>Node types\<close>


















section \<open>Paths found are valid\<close>

subsection \<open>Walks and chains\<close>

lemma neighbors_names: "set (neighbors g u) \<subseteq> graph_names g"
proof
  fix v assume "v \<in> set (neighbors g u)"
  then obtain d where d: "map_of (g_adj g) u = Some d" and v: "v \<in> fst ` set d"
    unfolding neighbors_def adj_of_def by (cases "map_of (g_adj g) u") auto
  from d have "(u, d) \<in> set (g_adj g)" by (rule map_of_SomeD)
  with v show "v \<in> graph_names g" unfolding graph_names_def by blast
qed

lemma finite_graph_names: "finite (graph_names g)"
  unfolding graph_names_def by auto

lemma is_walk_snoc:
  "xs \<noteq> [] \<Longrightarrow> is_walk g (xs @ [v]) = (is_walk g xs \<and> has_edge g (last xs) v)"
  by (induction g xs rule: is_walk.induct) auto

lemma is_walk_edges: "is_walk g p \<Longrightarrow> (a, b) \<in> set (zip p (tl p)) \<Longrightarrow> has_edge g a b"
  by (induction g p rule: is_walk.induct) auto

lemma is_walk_nodes:
  "wf_graph g \<Longrightarrow> is_walk g p \<Longrightarrow> p \<noteq> [] \<Longrightarrow> has_node g (hd p) \<Longrightarrow> n \<in> set p \<Longrightarrow>
     has_node g n"
  by (induction g p rule: is_walk.induct) (auto simp: wf_graph_def)

lemma is_walk_join:
  "is_walk g (xs @ [w]) \<Longrightarrow> is_walk g (w # ys) \<Longrightarrow> is_walk g (xs @ w # ys)"
  by (induction g xs rule: is_walk.induct) auto

lemma is_walk_rev: "wf_graph g \<Longrightarrow> is_walk g p \<Longrightarrow> is_walk g (rev p)"
proof (induction g p rule: is_walk.induct)
  case (3 g x y r)
  then have "is_walk g (rev (y # r))" and "has_edge g y x"
    by (simp_all add: wf_graph_def)
  then show ?case
    using is_walk_snoc[of "rev (y # r)" g x] by (simp add: last_rev)
qed simp_all

lemma is_chain_nonempty: "is_chain d p \<Longrightarrow> p \<noteq> []"
  by (cases p) auto

lemma follow_chain:
  "is_chain d p \<Longrightarrow> follow_dict d (Some (hd p)) acc = Some (Inr (acc @ p))"
proof (induction d p arbitrary: acc rule: is_chain.induct)
  case (1 d)
  then show ?case by simp
next
  case (2 d w)
  then have "follow_dict d (Some w) acc = follow_dict d None (acc @ [w])"
    by (subst follow_dict.simps) simp
  also have "\<dots> = Some (Inr (acc @ [w]))"
    by (subst follow_dict.simps) simp
  finally show ?case by simp
next
  case (3 d w v p)
  then have "follow_dict d (Some w) acc = follow_dict d (Some v) (acc @ [w])"
    by (subst follow_dict.simps) simp
  also have "\<dots> = Some (Inr ((acc @ [w]) @ v # p))"
    using "3.IH"[of "acc @ [w]"] "3.prems" by simp
  finally show ?case by simp
qed

lemma follow_tail:
  assumes "is_chain d p"
  shows "\<exists>x. d (hd p) = Some x \<and> follow_dict d x acc = Some (Inr (acc @ tl p))"
proof (cases p)
  case Nil
  with assms show ?thesis by simp
next
  case (Cons w rest)
  show ?thesis
  proof (cases rest)
    case Nil
    with Cons assms have "d w = Some None" by simp
    moreover have "follow_dict d None acc = Some (Inr acc)"
      by (subst follow_dict.simps) simp
    ultimately show ?thesis using Cons Nil by simp
  next
    case (Cons v r)
    with \<open>p = w # rest\<close> assms have dw: "d w = Some (Some v)" and c: "is_chain d (v # r)"
      by simp_all
    from follow_chain[OF c, of acc] have "follow_dict d (Some v) acc = Some (Inr (acc @ v # r))"
      by simp
    with dw show ?thesis using Cons \<open>p = w # rest\<close> by simp
  qed
qed

lemma chain_dom: "is_chain d p \<Longrightarrow> set p \<subseteq> dom d"
  by (induction d p rule: is_chain.induct) auto

lemma chain_upd: "is_chain d p \<Longrightarrow> w \<notin> dom d \<Longrightarrow> is_chain (d(w \<mapsto> x)) p"
  by (induction d p rule: is_chain.induct) auto

lemma search_tree_init: "search_tree g [r \<mapsto> None] r"
  unfolding search_tree_def
proof
  fix u assume "u \<in> dom [r \<mapsto> None]"
  then have "u = r" by (simp split: if_splits)
  then have "hd [r] = u \<and> is_chain [r \<mapsto> None] [r] \<and> last [r] = r \<and> distinct [r] \<and> is_walk g (rev [r])"
    by simp
  then show "\<exists>p. hd p = u \<and> is_chain [r \<mapsto> None] p \<and> last p = r \<and> distinct p \<and> is_walk g (rev p)"
    by blast
qed

lemma search_tree_add:
  assumes t: "search_tree g d r" and v: "v \<in> dom d" and w: "w \<notin> dom d" and e: "has_edge g v w"
  shows "search_tree g (d(w \<mapsto> Some v)) r"
  unfolding search_tree_def
proof
  fix u assume "u \<in> dom (d(w \<mapsto> Some v))"
  then consider "u = w" | "u \<in> dom d" by auto
  then show "\<exists>p. hd p = u \<and> is_chain (d(w \<mapsto> Some v)) p \<and> last p = r \<and> distinct p
                  \<and> is_walk g (rev p)"
  proof cases
    case 1
    from t v obtain p where p: "hd p = v" "is_chain d p" "last p = r" "distinct p" "is_walk g (rev p)"
      unfolding search_tree_def by blast
    from p(2) have ne: "p \<noteq> []" by (rule is_chain_nonempty)
    with p(1) obtain rest where pr: "p = v # rest" by (cases p) auto
    have "is_chain (d(w \<mapsto> Some v)) p" using p(2) w by (rule chain_upd)
    then have c: "is_chain (d(w \<mapsto> Some v)) (w # p)" unfolding pr by simp
    have nw: "w \<notin> set p" using chain_dom[OF p(2)] w by blast
    have "is_walk g (rev p @ [w])"
      using is_walk_snoc[of "rev p" g w] ne p(5) p(1) e by (simp add: last_rev)
    then have wk: "is_walk g (rev (w # p))" by simp
    have "hd (w # p) = u \<and> is_chain (d(w \<mapsto> Some v)) (w # p) \<and> last (w # p) = r
            \<and> distinct (w # p) \<and> is_walk g (rev (w # p))"
      using 1 c ne p(3) p(4) nw wk by simp
    then show ?thesis by blast
  next
    case 2
    with t obtain p where p: "hd p = u" "is_chain d p" "last p = r" "distinct p" "is_walk g (rev p)"
      unfolding search_tree_def by blast
    have "is_chain (d(w \<mapsto> Some v)) p" using p(2) w by (rule chain_upd)
    with p show ?thesis by blast
  qed
qed

subsection \<open>One level of the search\<close>

lemma scan_neighbors_ok:
  assumes "search_tree g mine r" and "v \<in> dom mine" and "set ws \<subseteq> set (neighbors g v)"
    and "set fringe \<subseteq> dom mine" and "dom mine \<inter> dom other = {}"
  shows "scan_ok g r mine other fringe (scan_neighbors v ws mine other fringe)"
  using assms
proof (induction ws arbitrary: mine fringe)
  case Nil
  then show ?case by (simp add: scan_ok_def)
next
  case (Cons w ws)
  define m1 where "m1 = (if mine w = None then mine(w \<mapsto> Some v) else mine)"
  define f1 where "f1 = (if mine w = None then fringe @ [w] else fringe)"
  from Cons.prems(3) have wn: "w \<in> set (neighbors g v)" and ws: "set ws \<subseteq> set (neighbors g v)"
    by simp_all
  from wn have e: "has_edge g v w" by (simp add: has_edge_neighbors)
  from wn have wg: "w \<in> graph_names g" using neighbors_names by blast
  have t1: "search_tree g m1 r"
  proof (cases "mine w = None")
    case True
    then have "w \<notin> dom mine" by (simp add: domIff)
    from search_tree_add[OF Cons.prems(1) Cons.prems(2) this e] True show ?thesis
      by (simp add: m1_def)
  next
    case False
    with Cons.prems(1) show ?thesis by (auto simp: m1_def)
  qed
  have d1: "dom m1 = insert w (dom mine)"
    by (auto simp: m1_def domIff)
  have d1a: "dom m1 \<subseteq> insert w (dom mine)" and d1b: "dom mine \<subseteq> dom m1"
    unfolding d1 by (simp_all add: subset_insertI)
  have v1: "v \<in> dom m1" using Cons.prems(2) d1 by simp
  have f1s: "set f1 \<subseteq> dom m1" using Cons.prems(4) d1 by (auto simp: f1_def)
  have f1n: "set f1 \<subseteq> set fringe \<union> (dom m1 - dom mine)"
    by (auto simp: f1_def d1 domIff)
  have step: "scan_neighbors v (w # ws) mine other fringe =
      (if other w \<noteq> None then (m1, f1, Some w) else scan_neighbors v ws m1 other f1)"
    by (simp add: m1_def f1_def)
  show ?case
  proof (cases "other w = None")
    case False
    then have "w \<in> dom other" by (simp add: domIff)
    with Cons.prems(5) d1 have "dom m1 \<inter> dom other = {w}" by auto
    with t1 f1s f1n d1 wg False show ?thesis
      unfolding step by (auto simp: scan_ok_def)
  next
    case True
    then have "w \<notin> dom other" by (simp add: domIff)
    with Cons.prems(5) d1 have dj: "dom m1 \<inter> dom other = {}" by auto
    obtain m2 f2 found where res: "scan_neighbors v ws m1 other f1 = (m2, f2, found)"
      by (cases "scan_neighbors v ws m1 other f1") auto
    from Cons.IH[OF t1 v1 ws f1s dj] res
    have ih: "search_tree g m2 r" "set f2 \<subseteq> dom m2" "dom m1 \<subseteq> dom m2"
      "dom m2 \<subseteq> dom m1 \<union> graph_names g" "set f2 \<subseteq> set f1 \<union> (dom m2 - dom m1)"
      "(case found of None \<Rightarrow> dom m2 \<inter> dom other = {} | Some w \<Rightarrow> dom m2 \<inter> dom other = {w})"
      by (simp_all add: scan_ok_def)
    have a: "dom mine \<subseteq> dom m2" using ih(3) d1b by (rule order_trans[rotated])
    have b: "dom m2 \<subseteq> dom mine \<union> graph_names g"
    proof
      fix x assume "x \<in> dom m2"
      with ih(4) have "x \<in> dom m1 \<or> x \<in> graph_names g" by blast
      with d1a wg show "x \<in> dom mine \<union> graph_names g" by blast
    qed
    have c: "set f2 \<subseteq> set fringe \<union> (dom m2 - dom mine)"
    proof
      fix x assume "x \<in> set f2"
      with ih(5) consider "x \<in> set f1" | "x \<in> dom m2" "x \<notin> dom m1" by blast
      then show "x \<in> set fringe \<union> (dom m2 - dom mine)"
      proof cases
        case 1
        with f1n ih(3) show ?thesis by blast
      next
        case 2
        with d1b show ?thesis by blast
      qed
    qed
    from ih(1) ih(2) a b c ih(6) True show ?thesis
      unfolding step res by (simp add: scan_ok_def)
  qed
qed

lemma scan_level_ok:
  assumes "search_tree g mine r" and "set vs \<subseteq> dom mine"
    and "set fringe \<subseteq> dom mine" and "dom mine \<inter> dom other = {}"
  shows "scan_ok g r mine other fringe (scan_level g vs mine other fringe)"
  using assms
proof (induction vs arbitrary: mine fringe)
  case Nil
  then show ?case by (simp add: scan_ok_def)
next
  case (Cons v vs)
  obtain m1 f1 found where res: "scan_neighbors v (neighbors g v) mine other fringe = (m1, f1, found)"
    by (cases "scan_neighbors v (neighbors g v) mine other fringe") auto
  from Cons.prems(2) have v: "v \<in> dom mine" and vs: "set vs \<subseteq> dom mine" by simp_all
  from scan_neighbors_ok[OF Cons.prems(1) v subset_refl Cons.prems(3) Cons.prems(4)] res
  have s1: "search_tree g m1 r" "set f1 \<subseteq> dom m1" "dom mine \<subseteq> dom m1"
      "dom m1 \<subseteq> dom mine \<union> graph_names g" "set f1 \<subseteq> set fringe \<union> (dom m1 - dom mine)"
      "(case found of None \<Rightarrow> dom m1 \<inter> dom other = {} | Some w \<Rightarrow> dom m1 \<inter> dom other = {w})"
    by (simp_all add: scan_ok_def)
  show ?case
  proof (cases found)
    case (Some w)
    with s1 res show ?thesis by (simp add: scan_ok_def)
  next
    case None
    with s1(6) have dj: "dom m1 \<inter> dom other = {}" by simp
    from vs s1(3) have vs1: "set vs \<subseteq> dom m1" by auto
    obtain m2 f2 found2 where res2: "scan_level g vs m1 other f1 = (m2, f2, found2)"
      by (cases "scan_level g vs m1 other f1") auto
    from Cons.IH[OF s1(1) vs1 s1(2) dj] res2
    have ih: "search_tree g m2 r" "set f2 \<subseteq> dom m2" "dom m1 \<subseteq> dom m2"
      "dom m2 \<subseteq> dom m1 \<union> graph_names g" "set f2 \<subseteq> set f1 \<union> (dom m2 - dom m1)"
      "(case found2 of None \<Rightarrow> dom m2 \<inter> dom other = {} | Some w \<Rightarrow> dom m2 \<inter> dom other = {w})"
      by (simp_all add: scan_ok_def)
    have a: "dom mine \<subseteq> dom m2" using ih(3) s1(3) by blast
    have b: "dom m2 \<subseteq> dom mine \<union> graph_names g" using ih(4) s1(4) by blast
    have c: "set f2 \<subseteq> set fringe \<union> (dom m2 - dom mine)"
    proof
      fix x assume "x \<in> set f2"
      with ih(5) consider "x \<in> set f1" | "x \<in> dom m2" "x \<notin> dom m1" by blast
      then show "x \<in> set fringe \<union> (dom m2 - dom mine)"
      proof cases
        case 1
        with s1(5) ih(3) show ?thesis by blast
      next
        case 2
        with s1(3) show ?thesis by blast
      qed
    qed
    from ih(1) ih(2) a b c ih(6) None show ?thesis
      by (simp add: res res2 scan_ok_def)
  qed
qed

lemma level_measure:
  assumes "scan_ok g r mine other [] (mine', fringe', found)"
  shows "card (graph_names g - dom mine') \<le> card (graph_names g - dom mine)"
    and "fringe' \<noteq> [] \<Longrightarrow> card (graph_names g - dom mine') < card (graph_names g - dom mine)"
proof -
  from assms have a: "dom mine \<subseteq> dom mine'" and b: "dom mine' \<subseteq> dom mine \<union> graph_names g"
    and c: "set fringe' \<subseteq> dom mine' - dom mine"
    by (simp_all add: scan_ok_def)
  have fin: "finite (graph_names g - dom mine)" using finite_graph_names by simp
  from a have sub: "graph_names g - dom mine' \<subseteq> graph_names g - dom mine" by auto
  with fin show "card (graph_names g - dom mine') \<le> card (graph_names g - dom mine)"
    by (rule card_mono)
  assume "fringe' \<noteq> []"
  then obtain x where "x \<in> set fringe'" by (cases fringe') auto
  with c b have "x \<in> graph_names g - dom mine" "x \<notin> graph_names g - dom mine'" by blast+
  with sub have "graph_names g - dom mine' \<subset> graph_names g - dom mine" by blast
  with fin show "card (graph_names g - dom mine') < card (graph_names g - dom mine)"
    by (rule psubset_card_mono)
qed

subsection \<open>The search returns, with a simple walk between the endpoints\<close>

lemma search_loop_returns:
  assumes "search_tree g pred s" and "search_tree g succ t" and "dom pred \<inter> dom succ = {}"
    and "set ff \<subseteq> dom pred" and "set rf \<subseteq> dom succ"
  shows "\<exists>res. search_loop g pred succ ff rf = Some res
           \<and> (case res of
                 Inl e \<Rightarrow> e = NetworkXNoPath
               | Inr (pred', succ', w) \<Rightarrow>
                   search_tree g pred' s \<and> search_tree g succ' t \<and> dom pred' \<inter> dom succ' = {w})"
  using assms
proof (induction "2 * (card (graph_names g - dom pred) + card (graph_names g - dom succ))
                  + (if ff = [] \<or> rf = [] then 0 else (1::nat))"
       arbitrary: pred succ ff rf rule: less_induct)
  case less
  show ?case
  proof (cases "ff = [] \<or> rf = []")
    case True
    then have "search_loop g pred succ ff rf = Some (Inl NetworkXNoPath)"
      by (subst search_loop.simps) simp
    then show ?thesis by simp
  next
    case False
    show ?thesis
    proof (cases "length ff \<le> length rf")
      case True
      obtain p' f' found where sc: "scan_level g ff pred succ [] = (p', f', found)"
        by (cases "scan_level g ff pred succ []") auto
      from scan_level_ok[OF less.prems(1) less.prems(4) _ less.prems(3), of "[]"] sc
      have ok: "scan_ok g s pred succ [] (p', f', found)" by simp
      then have t: "search_tree g p' s" and f: "set f' \<subseteq> dom p'"
        and fo: "(case found of None \<Rightarrow> dom p' \<inter> dom succ = {} | Some w \<Rightarrow> dom p' \<inter> dom succ = {w})"
        by (simp_all add: scan_ok_def)
      show ?thesis
      proof (cases found)
        case (Some w)
        then have "search_loop g pred succ ff rf = Some (Inr (p', succ, w))"
          using False True sc by (subst search_loop.simps) simp
        with t less.prems(2) fo Some show ?thesis by simp
      next
        case None
        then have eq: "search_loop g pred succ ff rf = search_loop g p' succ f' rf"
          using False True sc by (subst search_loop.simps) simp
        from fo None have dj: "dom p' \<inter> dom succ = {}" by simp
        have "2 * (card (graph_names g - dom p') + card (graph_names g - dom succ))
                + (if f' = [] \<or> rf = [] then 0 else (1::nat))
              < 2 * (card (graph_names g - dom pred) + card (graph_names g - dom succ))
                + (if ff = [] \<or> rf = [] then 0 else (1::nat))"
          using level_measure[OF ok] False by (cases "f' = []") auto
        from less.hyps[OF this t less.prems(2) dj f less.prems(5)] eq show ?thesis by simp
      qed
    next
      case rev: False
      have dj0: "dom succ \<inter> dom pred = {}" using less.prems(3) by blast
      obtain s' f' found where sc: "scan_level g rf succ pred [] = (s', f', found)"
        by (cases "scan_level g rf succ pred []") auto
      from scan_level_ok[OF less.prems(2) less.prems(5) _ dj0, of "[]"] sc
      have ok: "scan_ok g t succ pred [] (s', f', found)" by simp
      then have t: "search_tree g s' t" and f: "set f' \<subseteq> dom s'"
        and fo: "(case found of None \<Rightarrow> dom s' \<inter> dom pred = {} | Some w \<Rightarrow> dom s' \<inter> dom pred = {w})"
        by (simp_all add: scan_ok_def)
      show ?thesis
      proof (cases found)
        case (Some w)
        then have "search_loop g pred succ ff rf = Some (Inr (pred, s', w))"
          using False rev sc by (subst search_loop.simps) simp
        moreover from fo Some have "dom pred \<inter> dom s' = {w}" by (simp add: Int_commute)
        ultimately show ?thesis using t less.prems(1) by simp
      next
        case None
        then have eq: "search_loop g pred succ ff rf = search_loop g pred s' ff f'"
          using False rev sc by (subst search_loop.simps) simp
        from fo None have dj: "dom pred \<inter> dom s' = {}" by (simp add: Int_commute)
        have "2 * (card (graph_names g - dom pred) + card (graph_names g - dom s'))
                + (if ff = [] \<or> f' = [] then 0 else (1::nat))
              < 2 * (card (graph_names g - dom pred) + card (graph_names g - dom succ))
                + (if ff = [] \<or> rf = [] then 0 else (1::nat))"
          using level_measure[OF ok] False by (cases "f' = []") auto
        from less.hyps[OF this less.prems(1) t dj less.prems(4) f] eq show ?thesis by simp
      qed
    qed
  qed
qed

lemma bidirectional_path:
  assumes wf: "wf_graph g" and ns: "has_node g s" and nt: "has_node g t" and ne: "s \<noteq> t"
  shows "\<exists>res. bidirectional_shortest_path g s t = Some res
           \<and> (case res of
                 Inl e \<Rightarrow> e = NetworkXNoPath
               | Inr p \<Rightarrow> p \<noteq> [] \<and> hd p = s \<and> last p = t \<and> distinct p \<and> is_walk g p)"
proof -
  have dj: "dom [s \<mapsto> None :: string option] \<inter> dom [t \<mapsto> None :: string option] = {}"
    using ne by simp
  have fs: "set [s] \<subseteq> dom [s \<mapsto> None :: string option]"
    and ft: "set [t] \<subseteq> dom [t \<mapsto> None :: string option]" by simp_all
  from search_loop_returns[OF search_tree_init search_tree_init dj fs ft, where g = g]
  obtain res where run: "search_loop g [s \<mapsto> None] [t \<mapsto> None] [s] [t] = Some res"
    and post: "(case res of
                 Inl e \<Rightarrow> e = NetworkXNoPath
               | Inr (pred', succ', w) \<Rightarrow>
                   search_tree g pred' s \<and> search_tree g succ' t \<and> dom pred' \<inter> dom succ' = {w})"
    by auto
  from run ne have bps: "bidirectional_pred_succ g s t = Some res"
    by (auto simp: bidirectional_pred_succ_def)
  show ?thesis
  proof (cases res)
    case (Inl e)
    with post have "e = NetworkXNoPath" by simp
    with Inl bps ns nt show ?thesis by (simp add: bidirectional_shortest_path_def)
  next
    case (Inr tr)
    obtain pred succ w where tr: "tr = (pred, succ, w)" by (cases tr) auto
    from post Inr tr have tp: "search_tree g pred s" and ts: "search_tree g succ t"
      and meet: "dom pred \<inter> dom succ = {w}" by simp_all
    from meet have wp: "w \<in> dom pred" and wsc: "w \<in> dom succ" by blast+
    from tp wp obtain p1 where p1: "hd p1 = w" "is_chain pred p1" "last p1 = s" "distinct p1"
        "is_walk g (rev p1)"
      unfolding search_tree_def by blast
    from ts wsc obtain p2 where p2: "hd p2 = w" "is_chain succ p2" "last p2 = t" "distinct p2"
        "is_walk g (rev p2)"
      unfolding search_tree_def by blast
    from p1(2) have n1: "p1 \<noteq> []" by (rule is_chain_nonempty)
    from p2(2) have n2: "p2 \<noteq> []" by (rule is_chain_nonempty)
    from follow_chain[OF p1(2), of "[]"] p1(1)
    have bk: "follow_dict pred (Some w) [] = Some (Inr p1)" by simp
    have lst: "last (rev p1) = w" using n1 p1(1) by (simp add: last_rev)
    from follow_tail[OF p2(2), of "rev p1"] p2(1) obtain x where
      x: "succ w = Some x" "follow_dict succ x (rev p1) = Some (Inr (rev p1 @ tl p2))" by auto
    have res: "bidirectional_shortest_path g s t = Some (Inr (rev p1 @ tl p2))"
      using ns nt bps Inr tr bk lst x
      by (simp add: bidirectional_shortest_path_def Let_def)
    have e1: "p1 = w # tl p1" using n1 p1(1) by (cases p1) auto
    have e2: "p2 = w # tl p2" using n2 p2(1) by (cases p2) auto
    have w2: "is_walk g p2"
      using is_walk_rev[OF wf p2(5)] by simp
    have "is_walk g (rev (tl p1) @ [w])" using p1(5) by (subst (asm) e1) simp
    moreover have "is_walk g (w # tl p2)" using w2 by (subst (asm) e2) simp
    ultimately have "is_walk g (rev (tl p1) @ w # tl p2)" by (rule is_walk_join)
    moreover have "rev p1 @ tl p2 = rev (tl p1) @ w # tl p2" by (subst e1) simp
    ultimately have walk: "is_walk g (rev p1 @ tl p2)" by simp
    have s1: "set p1 \<subseteq> dom pred" using p1(2) by (rule chain_dom)
    have s2: "set p2 \<subseteq> dom succ" using p2(2) by (rule chain_dom)
    have wn: "w \<notin> set (tl p2)" using p2(4) by (subst (asm) e2) simp
    have t2: "set (tl p2) \<subseteq> set p2"
      using n2 by (auto dest: list.set_sel(2))
    have "x \<notin> set (tl p2)" if "x \<in> set p1" for x
    proof
      assume "x \<in> set (tl p2)"
      with t2 s2 have "x \<in> dom succ" by blast
      moreover from that s1 have "x \<in> dom pred" by blast
      ultimately have "x \<in> dom pred \<inter> dom succ" by simp
      then have "x = w" unfolding meet by simp
      with wn \<open>x \<in> set (tl p2)\<close> show False by simp
    qed
    then have disj: "set p1 \<inter> set (tl p2) = {}" by blast
    have d2: "distinct (tl p2)" using p2(4) by (rule distinct_tl)
    have dist: "distinct (rev p1 @ tl p2)" using p1(4) d2 disj by simp
    have hds: "hd (rev p1 @ tl p2) = s" using n1 p1(3) by (simp add: hd_rev)
    have lsts: "last (rev p1 @ tl p2) = t"
    proof (cases "tl p2 = []")
      case True
      with e2 have "p2 = [w]" by simp
      with p2(3) have "w = t" by simp
      with True lst n1 show ?thesis by simp
    next
      case False
      then have "last (tl p2) = last p2" by (subst (2) e2) simp
      with False p2(3) show ?thesis by simp
    qed
    from res n1 hds lsts dist walk show ?thesis by simp
  qed
qed

lemma ring_path_through_reverse_fringe:
  "find_path (snd (extract_topology init_topology ring_dump)) ''h1'' ''h2'' ''dijkstra''
     = Some [''h1'', ''s1'', ''s4'', ''s2'', ''h2'']"
  by code_simp

text \<open>
  C5, as amended: on every graph that \<^verbatim>\<open>_build_complete_graph\<close> makes, for every two
  different node ids \<open>src\<close> and \<open>dst\<close>, \<^verbatim>\<open>find_path\<close> returns, and a non-empty path
  it returns passes \<^verbatim>\<open>validate_path\<close>: it has at least two nodes, all of them nodes of
  the graph, every two consecutive ones joined by an edge, and none repeated.
\<close>

theorem found_path_valid:
  assumes "graph (topology_graph ptf) = build_graph sws hs ls"
    and "src \<noteq> dst"
  shows "\<exists>p. find_path (topology_graph ptf) src dst alg = Some p
             \<and> (p \<noteq> [] \<longrightarrow> validate_path ptf p = (True, ''Valid path''))"
proof (cases "has_node (graph (topology_graph ptf)) src \<and> has_node (graph (topology_graph ptf)) dst
              \<and> alg = ''dijkstra''")
  case False
  then have "find_path (topology_graph ptf) src dst alg = Some []"
    by (auto simp: find_path_def)
  then show ?thesis by simp
next
  case True
  let ?g = "graph (topology_graph ptf)"
  have wf: "wf_graph ?g" unfolding assms(1) by (rule wf_build_graph)
  from True have ns: "has_node ?g src" and nd: "has_node ?g dst" and alg: "alg = ''dijkstra''"
    by simp_all
  from bidirectional_path[OF wf ns nd assms(2)] obtain res where
    run: "bidirectional_shortest_path ?g src dst = Some res" and
    post: "(case res of
              Inl e \<Rightarrow> e = NetworkXNoPath
            | Inr p \<Rightarrow> p \<noteq> [] \<and> hd p = src \<and> last p = dst \<and> distinct p \<and> is_walk ?g p)"
    by blast
  show ?thesis
  proof (cases res)
    case (Inl e)
    with post have "e = NetworkXNoPath" by simp
    with Inl run ns nd alg have "find_path (topology_graph ptf) src dst alg = Some []"
      by (simp add: find_path_def shortest_path_def)
    then show ?thesis by simp
  next
    case (Inr p)
    with post have ne: "p \<noteq> []" and h: "hd p = src" and l: "last p = dst"
      and d: "distinct p" and w: "is_walk ?g p" by simp_all
    from Inr run ns nd alg have fp: "find_path (topology_graph ptf) src dst alg = Some p"
      by (simp add: find_path_def shortest_path_def)
    have len: "\<not> length p < 2"
    proof
      assume "length p < 2"
      with ne have "length p = 1" by (cases p) auto
      then have "hd p = last p" by (cases p) auto
      with h l assms(2) show False by simp
    qed
    have nodes: "find (\<lambda>node. \<not> has_node ?g node) p = None"
      using is_walk_nodes[OF wf w ne] ns h by (auto simp: find_None_iff)
    have edges: "find (\<lambda>(a, b). \<not> has_edge ?g a b) (zip p (tl p)) = None"
      using is_walk_edges[OF w] by (auto simp: find_None_iff)
    have card: "card (set p) = length p"
      using d by (rule distinct_card)
    have "validate_path ptf p = (True, ''Valid path'')"
      unfolding validate_path_def Let_def using len nodes edges card by simp
    with fp show ?thesis by simp
  qed
qed

theorem found_path_valid_witness:
  "''h1'' \<noteq> ''h2''
   \<and> find_path (topology_graph (init_path_to_flow net_topology)) ''h1'' ''h2'' ''dijkstra''
       = Some [''h1'', ''s1'', ''h2'']
   \<and> validate_path (init_path_to_flow net_topology) [''h1'', ''s1'', ''h2''] = (True, ''Valid path'')"
proof -
  have ne: "net_dump \<noteq> []" by (simp add: net_dump_def)
  have g: "graph (topology_graph (init_path_to_flow net_topology)) =
             build_graph (switches (parse_net_output net_dump)) (hosts (parse_net_output net_dump))
               (links (parse_net_output net_dump))"
    using ne
    by (simp add: init_path_to_flow_def net_topology_def extract_topology_def Let_def
          parse_net_dump build_complete_graph_def)
  have d: "''h1'' \<noteq> ''h2''" by simp
  from found_path_valid [OF g d, of "''dijkstra''"] obtain p where
    p: "find_path (topology_graph (init_path_to_flow net_topology)) ''h1'' ''h2'' ''dijkstra'' = Some p"
    and v: "p \<noteq> [] \<longrightarrow> validate_path (init_path_to_flow net_topology) p = (True, ''Valid path'')"
    by blast
  have e: "find_path (topology_graph (init_path_to_flow net_topology)) ''h1'' ''h2'' ''dijkstra''
             = Some [''h1'', ''s1'', ''h2'']"
    by code_simp
  with p have "p = [''h1'', ''s1'', ''h2'']" by simp
  with v e d show ?thesis by simp
qed

end
